theory Spec2Isabelle
  imports Main
begin

section \<open>Memory, pointers and the process state\<close>

text \<open>
  The shell core of \<^verbatim>\<open>src/lab.c\<close> works on C strings and on arrays of string
  pointers.  Memory is a list of blocks: block \<open>b\<close> is the \<open>b\<close>-th allocation, a block holds
  its bytes, and a block that has been freed is \<open>None\<close>.  Allocation appends a block, so a
  new block never coincides with a live or a freed one.  A pointer is \<open>Null\<close>, a block
  together with an offset into it, or an offset into a string literal of the program text,
  which is static and read-only.
\<close>

datatype ptr = Null | Ptr nat nat | Lit string nat

type_synonym heap = "string option list"

text \<open>
  An array of \<^verbatim>\<open>char *\<close> (the token vector, \<^verbatim>\<open>argv\<close>) is a list of cells; a cell that was
  allocated and never written holds an indeterminate value, \<open>None\<close>.
\<close>

type_synonym cells = "ptr option list"

text \<open>
  The process state: the heap, the hidden position of \<^verbatim>\<open>strtok\<close>, the
  environment, the user database, the working directory with the system's answer to
  \<^verbatim>\<open>chdir\<close>, \<^verbatim>\<open>errno\<close> with its message table, what was written to the standard error
  stream, the directory changes that were attempted, and the terminal the process runs on.
\<close>

record world =
  heap :: heap
  strtok_save :: ptr
  environ :: "string \<Rightarrow> ptr option"
  uid :: nat
  passwd :: "nat \<Rightarrow> ptr option"
  cwd :: string
  sys_chdir :: "string \<Rightarrow> string \<Rightarrow> nat + string"
  errno :: nat
  strerror :: "nat \<Rightarrow> string"
  err_out :: string
  chdir_calls :: "string list"
  stdin_tty :: bool
  pid :: int
  sys_setpgid :: "int \<Rightarrow> int \<Rightarrow> nat option"
  pgrp :: int
  term_attrs :: nat
  fg_pgrp :: int

text \<open>
  A call returns a value, ends the process with a status (\<^verbatim>\<open>exit\<close>), or has no defined
  behaviour (a read outside a block, a dangling or indeterminate pointer).
\<close>

datatype 'a res = Ret 'a world | Exit int world | Undefined

fun exit_code :: "'a res \<Rightarrow> int option" where
  "exit_code (Exit c w) = Some c"
| "exit_code _ = None"

fun final_world :: "'a res \<Rightarrow> world option" where
  "final_world (Ret x w) = Some w"
| "final_world (Exit c w) = Some w"
| "final_world Undefined = None"

definition NUL :: char where
  "NUL = CHR 0x00"

definition block_at :: "heap \<Rightarrow> nat \<Rightarrow> string option" where
  "block_at h b = (if b < length h then h ! b else None)"

text \<open>
  The bytes a pointer can read: from its offset to the end of its live block, or to the
  terminator that ends its literal.
\<close>

definition bytes_at :: "heap \<Rightarrow> ptr \<Rightarrow> string option" where
  "bytes_at h p =
     (case p of
        Null \<Rightarrow> None
      | Ptr b i \<Rightarrow>
          (case block_at h b of
             None \<Rightarrow> None
           | Some bs \<Rightarrow> if i \<le> length bs then Some (drop i bs) else None)
      | Lit s i \<Rightarrow> if i \<le> length s then Some (drop i (s @ [NUL])) else None)"

text \<open>
  The C string at a pointer: the bytes before the first terminator.  There is none when the
  pointer is null or dangling, or when no terminator follows inside the block.
\<close>

definition cstr :: "heap \<Rightarrow> ptr \<Rightarrow> string option" where
  "cstr h p =
     (case bytes_at h p of
        None \<Rightarrow> None
      | Some bs \<Rightarrow> if NUL \<in> set bs then Some (takeWhile (\<lambda>c. c \<noteq> NUL) bs) else None)"

text \<open>Reading cell \<open>i\<close> of a pointer array: the read must be in range and of a written cell.\<close>

definition cell :: "cells \<Rightarrow> nat \<Rightarrow> ptr option" where
  "cell a i = (if i < length a then a ! i else None)"

subsection \<open>The C library\<close>

text \<open>
  The store is unbounded: \<^verbatim>\<open>strdup\<close> always finds room.  A request for a pointer array
  is refused when its size in bytes exceeds \<^verbatim>\<open>PTRDIFF_MAX\<close>, as the allocator does; pointers
  are 8 bytes wide and \<^verbatim>\<open>size_t\<close> has 64 bits.
\<close>

definition alloc_str :: "world \<Rightarrow> string \<Rightarrow> ptr \<times> world" where
  "alloc_str w s = (Ptr (length (heap w)) 0, w\<lparr>heap := heap w @ [Some (s @ [NUL])]\<rparr>)"

definition strdup :: "world \<Rightarrow> ptr \<Rightarrow> (ptr \<times> world) option" where
  "strdup w p = map_option (alloc_str w) (cstr (heap w) p)"

text \<open>\<^verbatim>\<open>free\<close> takes the null pointer or the start of a live block.\<close>

definition free :: "world \<Rightarrow> ptr \<Rightarrow> world option" where
  "free w p =
     (case p of
        Null \<Rightarrow> Some w
      | Ptr b i \<Rightarrow>
          if i = 0 \<and> block_at (heap w) b \<noteq> None
          then Some (w\<lparr>heap := (heap w)[b := None]\<rparr>)
          else None
      | Lit s i \<Rightarrow> None)"

definition PTRDIFF_MAX :: int where
  "PTRDIFF_MAX = 2 ^ 63 - 1"

text \<open>\<^verbatim>\<open>n * sizeof(char *)\<close> for an \<^verbatim>\<open>int n\<close>: converted to \<^verbatim>\<open>size_t\<close>, then multiplied.\<close>

definition ptr_array_bytes :: "int \<Rightarrow> int" where
  "ptr_array_bytes n = ((n mod 2 ^ 64) * 8) mod 2 ^ 64"

definition malloc_cells :: "int \<Rightarrow> cells option" where
  "malloc_cells bytes =
     (if bytes \<le> PTRDIFF_MAX then Some (replicate (nat (bytes div 8)) None) else None)"

definition realloc_cells :: "cells \<Rightarrow> int \<Rightarrow> cells option" where
  "realloc_cells a bytes =
     (if bytes \<le> PTRDIFF_MAX
      then Some (take (nat (bytes div 8)) a @ replicate (nat (bytes div 8) - length a) None)
      else None)"

text \<open>
  Arithmetic on \<^verbatim>\<open>int\<close> is 32-bit two's complement.  The C standard leaves a signed
  result out of range undefined; here it wraps around, which is what the usual compilers
  produce for \<^verbatim>\<open>position++\<close> and \<^verbatim>\<open>bufsize *= 2\<close>.
\<close>

definition wrap32 :: "int \<Rightarrow> int" where
  "wrap32 x = (x + 2 ^ 31) mod 2 ^ 32 - 2 ^ 31"

text \<open>
  \<^verbatim>\<open>strspn\<close> and \<^verbatim>\<open>strcspn\<close> on the bytes a pointer can read: the length of the
  longest prefix inside (outside) the given set, the terminator ending it.  Running past the
  end of the block is undefined.
\<close>

fun strspn :: "string \<Rightarrow> string \<Rightarrow> nat option" where
  "strspn [] accept = None"
| "strspn (c # cs) accept =
     (if c \<noteq> NUL \<and> c \<in> set accept then map_option Suc (strspn cs accept) else Some 0)"

fun strcspn :: "string \<Rightarrow> string \<Rightarrow> nat option" where
  "strcspn [] reject = None"
| "strcspn (c # cs) reject =
     (if c \<noteq> NUL \<and> c \<notin> set reject then map_option Suc (strcspn cs reject) else Some 0)"

text \<open>
  \<^verbatim>\<open>strtok(s, delim)\<close>: start at \<open>s\<close>, or at the saved position when \<open>s\<close> is null; skip
  delimiters; at the terminator there is no token.  Otherwise the token starts here and runs
  to the next delimiter, which is overwritten with a terminator, or to the end of the
  string; the position after it is saved.  The string must be writable.
\<close>

definition strtok :: "world \<Rightarrow> ptr \<Rightarrow> string \<Rightarrow> (ptr \<times> world) option" where
  "strtok w s delim =
     (case (if s = Null then strtok_save w else s) of
        Null \<Rightarrow> None
      | Lit l i \<Rightarrow> None
      | Ptr b i \<Rightarrow>
          (case block_at (heap w) b of
             None \<Rightarrow> None
           | Some bs \<Rightarrow>
               (case strspn (drop i bs) delim of
                  None \<Rightarrow> None
                | Some n \<Rightarrow>
                    if bs ! (i + n) = NUL then Some (Null, w\<lparr>strtok_save := Ptr b (i + n)\<rparr>)
                    else
                      (case strcspn (drop (i + n) bs) delim of
                         None \<Rightarrow> None
                       | Some m \<Rightarrow>
                           if bs ! (i + n + m) = NUL
                           then Some (Ptr b (i + n), w\<lparr>strtok_save := Ptr b (i + n + m)\<rparr>)
                           else Some (Ptr b (i + n),
                                  w\<lparr>heap := (heap w)[b := Some (bs[i + n + m := NUL])],
                                    strtok_save := Ptr b (Suc (i + n + m))\<rparr>)))))"

text \<open>\<^verbatim>\<open>isspace\<close> in the C locale: space, and the five controls from tab to carriage return.\<close>

definition isspace :: "char \<Rightarrow> bool" where
  "isspace c = (c \<in> set [CHR '' '', CHR 0x09, CHR 0x0A, CHR 0x0B, CHR 0x0C, CHR 0x0D])"

definition getenv :: "world \<Rightarrow> string \<Rightarrow> ptr" where
  "getenv w name = (case environ w name of None \<Rightarrow> Null | Some p \<Rightarrow> p)"

text \<open>\<^verbatim>\<open>perror(s)\<close> writes \<open>s\<close>, a colon and the message of the current \<^verbatim>\<open>errno\<close>.\<close>

definition perror :: "world \<Rightarrow> string \<Rightarrow> world" where
  "perror w s = w\<lparr>err_out := err_out w @ s @ '': '' @ strerror w (errno w) @ [CHR 0x0A]\<rparr>"

section \<open>The tokenizer\<close>

definition delims :: string where
  "delims = [CHR '' '', CHR 0x09, CHR 0x0D, CHR 0x0A]"

definition alloc_error :: string where
  "alloc_error = ''cmd_parse: allocation error'' @ [CHR 0x0A]"

text \<open>What is left to read at the saved position of \<^verbatim>\<open>strtok\<close>.\<close>

definition unread :: "world \<Rightarrow> nat" where
  "unread w =
     (case strtok_save w of
        Null \<Rightarrow> 0
      | Lit l i \<Rightarrow> 0
      | Ptr b i \<Rightarrow> (case block_at (heap w) b of None \<Rightarrow> 0 | Some bs \<Rightarrow> length bs - i))"

lemma strspn_Some:
  "strspn xs a = Some n \<Longrightarrow> n < length xs \<and> (xs ! n = NUL \<or> xs ! n \<notin> set a)"
  by (induction xs arbitrary: n) (auto split: if_splits)

lemma strcspn_Some:
  "strcspn xs r = Some m \<Longrightarrow> m < length xs \<and> (xs ! m = NUL \<or> xs ! m \<in> set r)"
  by (induction xs arbitrary: m) (auto split: if_splits)

lemma strcspn_pos:
  "strcspn xs r = Some m \<Longrightarrow> xs \<noteq> [] \<Longrightarrow> hd xs \<noteq> NUL \<Longrightarrow> hd xs \<notin> set r \<Longrightarrow> 0 < m"
  by (cases xs) (auto split: if_splits)

lemma strtok_unread:
  assumes "strtok w Null d = Some (t, w')" and "t \<noteq> Null"
  shows "unread w' < unread w \<and> (\<exists>b i. strtok_save w' = Ptr b i \<and> b < length (heap w'))
         \<and> length (heap w') = length (heap w)"
proof -
  from assms obtain b i where sv: "strtok_save w = Ptr b i"
    by (cases "strtok_save w") (auto simp: strtok_def)
  from assms sv obtain bs where bs: "block_at (heap w) b = Some bs"
    by (cases "block_at (heap w) b") (auto simp: strtok_def)
  from assms sv bs obtain n where n: "strspn (drop i bs) d = Some n"
    by (cases "strspn (drop i bs) d") (auto simp: strtok_def)
  from assms sv bs n have nz: "bs ! (i + n) \<noteq> NUL"
    by (auto simp: strtok_def split: if_splits)
  from assms sv bs n nz obtain m where m: "strcspn (drop (i + n) bs) d = Some m"
    by (cases "strcspn (drop (i + n) bs) d") (auto simp: strtok_def)
  from strspn_Some [OF n] have n1: "i + n < length bs" and n2: "bs ! (i + n) \<notin> set d"
    using nz by auto
  from strcspn_Some [OF m] have m1: "i + n + m < length bs" by auto
  have "drop (i + n) bs \<noteq> []" using n1 by simp
  moreover have "hd (drop (i + n) bs) = bs ! (i + n)" using n1 by (simp add: hd_drop_conv_nth)
  ultimately have mpos: "0 < m" using strcspn_pos [OF m] nz n2 by simp
  have blen: "b < length (heap w)" using bs by (auto simp: block_at_def split: if_splits)
  show ?thesis
  proof (cases "bs ! (i + n + m) = NUL")
    case True
    with assms sv bs n nz m have "w' = w\<lparr>strtok_save := Ptr b (i + n + m)\<rparr>"
      by (auto simp: strtok_def)
    then show ?thesis using sv bs m1 mpos blen by (simp add: unread_def)
  next
    case False
    with assms sv bs n nz m
    have "w' = w\<lparr>heap := (heap w)[b := Some (bs[i + n + m := NUL])],
                  strtok_save := Ptr b (Suc (i + n + m))\<rparr>"
      by (auto simp: strtok_def)
    then show ?thesis using sv bs m1 mpos blen by (simp add: unread_def block_at_def)
  qed
qed

lemma strdup_unread:
  assumes "strdup w t = Some (p, w')" and "strtok_save w = Ptr b i" and "b < length (heap w)"
  shows "unread w' = unread w"
  using assms by (auto simp: strdup_def alloc_str_def unread_def block_at_def nth_append)

text \<open>
  The loop of \<^verbatim>\<open>cmd_parse\<close>: copy the token, store the copy at \<open>position\<close>, double
  the array once it is full (ending the process when the allocator refuses), and ask
  \<^verbatim>\<open>strtok\<close> for the next token.  It stops at the first null token and returns the array
  with the position reached.
\<close>

function parse_loop ::
  "world \<Rightarrow> cells \<Rightarrow> int \<Rightarrow> int \<Rightarrow> ptr \<Rightarrow> (cells \<times> int) res" where
  "parse_loop w tokens bufsize position token =
     (if token = Null then Ret (tokens, position) w
      else
        (case strdup w token of
           None \<Rightarrow> Undefined
         | Some (p, w1) \<Rightarrow>
             if \<not> (0 \<le> position \<and> nat position < length tokens) then Undefined
             else
               let tokens1 = tokens[nat position := Some p];
                   position1 = wrap32 (position + 1)
               in
                 if position1 \<ge> bufsize then
                   (let bufsize1 = wrap32 (bufsize * 2) in
                    case realloc_cells tokens1 (ptr_array_bytes bufsize1) of
                      None \<Rightarrow> Exit 1 (w1\<lparr>err_out := err_out w1 @ alloc_error\<rparr>)
                    | Some tokens2 \<Rightarrow>
                        (case strtok w1 Null delims of
                           None \<Rightarrow> Undefined
                         | Some (token', w2) \<Rightarrow>
                             parse_loop w2 tokens2 bufsize1 position1 token'))
                 else
                   (case strtok w1 Null delims of
                      None \<Rightarrow> Undefined
                    | Some (token', w2) \<Rightarrow>
                        parse_loop w2 tokens1 bufsize position1 token')))"
  by pat_completeness auto

definition loop_measure :: "world \<times> cells \<times> int \<times> int \<times> ptr \<Rightarrow> nat" where
  "loop_measure = (\<lambda>(w, tokens, bufsize, position, token).
     if token = Null then 0
     else Suc (case strdup w token of None \<Rightarrow> 0 | Some (p, w1) \<Rightarrow> unread w1))"

lemma loop_measure_decreases:
  assumes "token \<noteq> Null" and "strdup w token = Some (p, w1)"
    and "strtok w1 Null d = Some (token', w2)"
  shows "loop_measure (w2, a2, b2, p2, token') < loop_measure (w, a, b, p0, token)"
proof (cases "token' = Null")
  case True
  then show ?thesis using assms by (simp add: loop_measure_def)
next
  case False
  from strtok_unread [OF assms(3) False]
  obtain bb i where dec: "unread w2 < unread w1" and sv: "strtok_save w2 = Ptr bb i"
    and bb: "bb < length (heap w2)" by auto
  show ?thesis
  proof (cases "strdup w2 token'")
    case None
    then show ?thesis using assms False dec by (simp add: loop_measure_def)
  next
    case (Some r)
    obtain p' w3 where r: "r = (p', w3)" by (cases r)
    from strdup_unread [OF Some [unfolded r] sv bb] dec
    show ?thesis using assms False Some r by (simp add: loop_measure_def)
  qed
qed

termination parse_loop
  by (relation "measure loop_measure") (auto intro: loop_measure_decreases)

declare parse_loop.simps [simp del]

text \<open>
  \<^verbatim>\<open>cmd_parse\<close>: allocate 64 cells, copy the line, split the copy with \<^verbatim>\<open>strtok\<close>, run
  the loop, store the null cell after the last token and free the copy of the line.
\<close>

definition cmd_parse :: "world \<Rightarrow> ptr \<Rightarrow> cells res" where
  "cmd_parse w line =
     (let bufsize = 64 in
      case malloc_cells (ptr_array_bytes bufsize) of
        None \<Rightarrow> Exit 1 (w\<lparr>err_out := err_out w @ alloc_error\<rparr>)
      | Some tokens \<Rightarrow>
          (case strdup w line of
             None \<Rightarrow> Undefined
           | Some (line_copy, w1) \<Rightarrow>
               (case strtok w1 line_copy delims of
                  None \<Rightarrow> Undefined
                | Some (token, w2) \<Rightarrow>
                    (case parse_loop w2 tokens bufsize 0 token of
                       Undefined \<Rightarrow> Undefined
                     | Exit c w3 \<Rightarrow> Exit c w3
                     | Ret (tokens', position) w3 \<Rightarrow>
                         if \<not> (0 \<le> position \<and> nat position < length tokens') then Undefined
                         else
                           (case free w3 line_copy of
                              None \<Rightarrow> Undefined
                            | Some w4 \<Rightarrow> Ret (tokens'[nat position := Some Null]) w4)))))"

text \<open>
  What a caller reads from a vector: the strings at its cells, up to the first null cell.
  There is no such reading when a cell before it was never written or does not point to a
  string, or when no cell is null.
\<close>

fun argv_strings :: "heap \<Rightarrow> cells \<Rightarrow> string list option" where
  "argv_strings h [] = None"
| "argv_strings h (None # a) = None"
| "argv_strings h (Some Null # a) = Some []"
| "argv_strings h (Some p # a) =
     (case cstr h p of None \<Rightarrow> None | Some s \<Rightarrow> map_option ((#) s) (argv_strings h a))"


section \<open>The trimmer\<close>

fun strlen :: "string \<Rightarrow> nat option" where
  "strlen [] = None"
| "strlen (c # cs) = (if c = NUL then Some 0 else map_option Suc (strlen cs))"

text \<open>The first loop of \<^verbatim>\<open>trim_white\<close>: advance while the byte is a non-terminator space.\<close>

function skip_leading :: "string \<Rightarrow> nat \<Rightarrow> nat option" where
  "skip_leading bs line =
     (if line < length bs
      then (if bs ! line \<noteq> NUL \<and> isspace (bs ! line) then skip_leading bs (Suc line)
            else Some line)
      else None)"
  by pat_completeness auto
termination
  by (relation "measure (\<lambda>(bs, line). length bs - line)") auto

text \<open>The second loop: step back from the last byte while it is a space, not below \<open>line\<close>.\<close>

function skip_trailing :: "string \<Rightarrow> nat \<Rightarrow> nat \<Rightarrow> nat option" where
  "skip_trailing bs line end =
     (if end > line
      then (if end < length bs
            then (if isspace (bs ! end) then skip_trailing bs line (end - 1) else Some end)
            else None)
      else Some end)"
  by pat_completeness auto
termination
  by (relation "measure (\<lambda>(bs, line, end). end)") auto

declare skip_leading.simps [simp del] skip_trailing.simps [simp del]

text \<open>
  \<^verbatim>\<open>trim_white\<close> returns the advanced pointer; the terminator is written into the caller's
  block, which must be writable: a string literal is not.  When the second loop starts the
  string is not empty, so \<^verbatim>\<open>strlen(line) - 1\<close> does not fall below zero.
\<close>

definition trim_white :: "world \<Rightarrow> ptr \<Rightarrow> ptr res" where
  "trim_white w line =
     (case line of
        Null \<Rightarrow> Ret Null w
      | Lit l i \<Rightarrow> Undefined
      | Ptr b i \<Rightarrow>
          (case block_at (heap w) b of
             None \<Rightarrow> Undefined
           | Some bs \<Rightarrow>
               (case skip_leading bs i of
                  None \<Rightarrow> Undefined
                | Some line1 \<Rightarrow>
                    if bs ! line1 = NUL then Ret (Ptr b line1) w
                    else
                      (case strlen (drop line1 bs) of
                         None \<Rightarrow> Undefined
                       | Some n \<Rightarrow>
                           (case skip_trailing bs line1 (line1 + n - 1) of
                              None \<Rightarrow> Undefined
                            | Some end \<Rightarrow>
                                if Suc end < length bs
                                then Ret (Ptr b line1)
                                       (w\<lparr>heap := (heap w)[b := Some (bs[Suc end := NUL])]\<rparr>)
                                else Undefined)))))"

section \<open>The prompt\<close>

definition get_prompt :: "world \<Rightarrow> ptr \<Rightarrow> ptr res" where
  "get_prompt w env =
     (case cstr (heap w) env of
        None \<Rightarrow> Undefined
      | Some name \<Rightarrow>
          (let env_val = getenv w name in
           if env_val \<noteq> Null
           then (case strdup w env_val of None \<Rightarrow> Undefined | Some (p, w') \<Rightarrow> Ret p w')
           else (case strdup w (Lit ''shell>'' 0) of
                   None \<Rightarrow> Undefined
                 | Some (p, w') \<Rightarrow> Ret p w')))"

section \<open>Changing the directory\<close>

text \<open>
  \<^verbatim>\<open>chdir\<close>: the system decides, from the working directory and the path, on the new
  working directory or on an error number.  Every call is recorded.
\<close>

definition chdir :: "world \<Rightarrow> ptr \<Rightarrow> (int \<times> world) option" where
  "chdir w p =
     (case cstr (heap w) p of
        None \<Rightarrow> None
      | Some path \<Rightarrow>
          (let w1 = w\<lparr>chdir_calls := chdir_calls w @ [path]\<rparr> in
           case sys_chdir w (cwd w) path of
             Inl e \<Rightarrow> Some (- 1, w1\<lparr>errno := e\<rparr>)
           | Inr d \<Rightarrow> Some (0, w1\<lparr>cwd := d\<rparr>)))"

text \<open>
  \<^verbatim>\<open>change_dir\<close>: the first part chooses the target or returns early with \<open>-1\<close>; the second
  part calls \<^verbatim>\<open>chdir\<close> and reports a failure.
\<close>

definition change_dir :: "world \<Rightarrow> cells \<Rightarrow> int res" where
  "change_dir w dir =
     (case cell dir 1 of
        None \<Rightarrow> Undefined
      | Some d1 \<Rightarrow>
          (case (if d1 = Null
                 then (let target = getenv w ''HOME'' in
                       if target = Null
                       then (case passwd w (uid w) of
                               Some pw_dir \<Rightarrow> Inr pw_dir
                             | None \<Rightarrow>
                                 Inl (perror w ''change_dir: cannot determine home directory''))
                       else Inr target)
                 else Inr d1) of
             Inl w' \<Rightarrow> Ret (- 1) w'
           | Inr target \<Rightarrow>
               (case chdir w target of
                  None \<Rightarrow> Undefined
                | Some (ret, w1) \<Rightarrow>
                    Ret ret (if ret \<noteq> 0 then perror w1 ''change_dir'' else w1))))"

section \<open>The session and the built-in commands\<close>

text \<open>
  Modelled from the spec: \<^verbatim>\<open>struct shell\<close> is declared in \<^verbatim>\<open>lab.h\<close>, which is not among
  the sources.  The fields are those \<^verbatim>\<open>lab.c\<close> reads and writes and the session of the
  specification lists: the interactivity flag, the process group, the saved terminal modes,
  the terminal descriptor and the owned prompt.
\<close>

record shell =
  shell_is_interactive :: int
  shell_pgid :: int
  shell_tmodes :: nat
  shell_terminal :: int
  prompt :: ptr

text \<open>\<^verbatim>\<open>strcmp(p, lit) == 0\<close> for a literal \<open>lit\<close>: the string at \<open>p\<close> is read and compared.\<close>

definition streq :: "world \<Rightarrow> ptr \<Rightarrow> string \<Rightarrow> bool option" where
  "streq w p lit = map_option (\<lambda>s. s = lit) (cstr (heap w) p)"

text \<open>
  \<^verbatim>\<open>do_builtin\<close>: the session pointer (\<open>None\<close> is the null pointer) is not used;
  \<open>argv = None\<close> is the null vector.
\<close>

definition do_builtin :: "world \<Rightarrow> shell option \<Rightarrow> cells option \<Rightarrow> bool res" where
  "do_builtin w sh argv =
     (case argv of
        None \<Rightarrow> Ret False w
      | Some av \<Rightarrow>
          (case cell av 0 of
             None \<Rightarrow> Undefined
           | Some a0 \<Rightarrow>
               if a0 = Null then Ret False w
               else
                 (case streq w a0 ''exit'' of
                    None \<Rightarrow> Undefined
                  | Some True \<Rightarrow>
                      (let skip_exit = getenv w ''SKIP_EXIT'' in
                       if skip_exit = Null then Exit 0 w
                       else (case streq w skip_exit ''1'' of
                               None \<Rightarrow> Undefined
                             | Some True \<Rightarrow> Ret True w
                             | Some False \<Rightarrow> Exit 0 w))
                  | Some False \<Rightarrow>
                      (case streq w a0 ''cd'' of
                         None \<Rightarrow> Undefined
                       | Some True \<Rightarrow>
                           (case change_dir w av of
                              Undefined \<Rightarrow> Undefined
                            | Exit c w' \<Rightarrow> Exit c w'
                            | Ret r w' \<Rightarrow> Ret True w')
                       | Some False \<Rightarrow>
                           (case streq w a0 ''history'' of
                              None \<Rightarrow> Undefined
                            | Some True \<Rightarrow> Ret True w
                            | Some False \<Rightarrow> Ret False w)))))"

definition isatty :: "world \<Rightarrow> int \<Rightarrow> int" where
  "isatty w fd = (if fd = 0 \<and> stdin_tty w then 1 else 0)"

text \<open>
  \<^verbatim>\<open>sh_init\<close>.  \<^verbatim>\<open>setpgid\<close> answers with an error number or succeeds and moves the
  process into the group; \<^verbatim>\<open>tcgetattr\<close> copies the terminal's modes; \<^verbatim>\<open>tcsetpgrp\<close> makes the
  group the foreground group.
\<close>

definition sh_init :: "world \<Rightarrow> shell option \<Rightarrow> shell option res" where
  "sh_init w sh =
     (case sh of
        None \<Rightarrow> Ret None w
      | Some s0 \<Rightarrow>
          (let s1 = s0\<lparr>shell_terminal := 0\<rparr>;
               s2 = s1\<lparr>shell_is_interactive := isatty w (shell_terminal s1)\<rparr>;
               skip_tc = getenv w ''SKIP_TC''
           in
             case (if shell_is_interactive s2 = 0 then Some False
                   else if skip_tc = Null then Some True
                   else map_option Not (streq w skip_tc ''1'')) of
               None \<Rightarrow> Undefined
             | Some control \<Rightarrow>
                 (case (if control
                        then (let s3 = s2\<lparr>shell_pgid := pid w\<rparr> in
                              case sys_setpgid w (shell_pgid s3) (shell_pgid s3) of
                                Some e \<Rightarrow>
                                  Inl (perror (w\<lparr>errno := e\<rparr>)
                                    ''sh_init: Couldn't put the shell in its own process group'')
                              | None \<Rightarrow>
                                  Inr (s3\<lparr>shell_tmodes := term_attrs w\<rparr>,
                                       w\<lparr>pgrp := shell_pgid s3, fg_pgrp := shell_pgid s3\<rparr>))
                        else Inr (s2, w)) of
                    Inl w' \<Rightarrow> Exit 1 w'
                  | Inr (s4, w4) \<Rightarrow>
                      (case get_prompt w4 (Lit ''MY_PROMPT'' 0) of
                         Undefined \<Rightarrow> Undefined
                       | Exit c w' \<Rightarrow> Exit c w'
                       | Ret p w' \<Rightarrow> Ret (Some (s4\<lparr>prompt := p\<rparr>)) w'))))"

definition sh_destroy :: "world \<Rightarrow> shell option \<Rightarrow> shell option res" where
  "sh_destroy w sh =
     (case sh of
        None \<Rightarrow> Ret None w
      | Some s \<Rightarrow>
          if prompt s \<noteq> Null
          then (case free w (prompt s) of
                  None \<Rightarrow> Undefined
                | Some w' \<Rightarrow> Ret (Some (s\<lparr>prompt := Null\<rparr>)) w')
          else Ret (Some s) w)"

section \<open>Specification-level notions\<close>

text \<open>
  The target of \<^verbatim>\<open>cd\<close> in the words of the specification: the second element of the
  vector if present, otherwise \<^verbatim>\<open>HOME\<close> if set, otherwise the home directory of the
  current user in the user database.
\<close>

definition cd_target :: "world \<Rightarrow> cells \<Rightarrow> ptr option" where
  "cd_target w dir =
     (case cell dir 1 of
        None \<Rightarrow> None
      | Some d1 \<Rightarrow>
          if d1 \<noteq> Null then Some d1
          else if getenv w ''HOME'' \<noteq> Null then Some (getenv w ''HOME'')
          else passwd w (uid w))"

text \<open>
  Trimming in the words of the specification: the leading white space is removed, then the
  trailing white space.
\<close>

definition strip_ws :: "string \<Rightarrow> string" where
  "strip_ws s = rev (dropWhile isspace (rev (dropWhile isspace s)))"

text \<open>
  Tokens in the words of the specification.  The separators are the four characters given to
  \<^verbatim>\<open>strtok\<close>.  Cutting a line at every separator gives its fields, of which some are empty;
  the tokens are the fields that are not empty, in order: the maximal runs of characters
  that are not separators.
\<close>

definition is_delim :: "char \<Rightarrow> bool" where
  "is_delim c = (c \<in> set delims)"

fun ws_fields :: "string \<Rightarrow> string list" where
  "ws_fields [] = [[]]"
| "ws_fields (c # cs) =
     (if is_delim c then [] # ws_fields cs else (c # hd (ws_fields cs)) # tl (ws_fields cs))"

definition runs :: "string \<Rightarrow> string list" where
  "runs s = filter (\<lambda>f. f \<noteq> []) (ws_fields s)"

text \<open>
  The same notion as a property to check: a list of tokens is the tokenization of a line when
  the line is separators, then the first token, which is not empty, holds no separator and
  ends at a separator or at the end of the line, then the tokenization of what follows.  A
  line has one tokenization, the list \<open>runs\<close> computes (\<open>tokenization_runs\<close>,
  \<open>tokenization_unique\<close>).
\<close>

fun tokenization :: "string \<Rightarrow> string list \<Rightarrow> bool" where
  "tokenization s [] = (\<forall>c\<in>set s. is_delim c)"
| "tokenization s (t # ts) =
     (let r = dropWhile is_delim s; r' = drop (length t) r
      in t \<noteq> [] \<and> (\<forall>c\<in>set t. \<not> is_delim c) \<and> take (length t) r = t
         \<and> (r' = [] \<or> is_delim (hd r')) \<and> tokenization r' ts)"

text \<open>
  The size of the token array once \<open>k\<close> tokens are stored: 64 cells, doubled whenever the
  position reaches the size.  The doubling of \<^verbatim>\<open>int bufsize\<close> from \<open>2 ^ 30\<close> leaves the range
  of \<^verbatim>\<open>int\<close>: \<open>max_tokens\<close> is the number of tokens at which that happens.
\<close>

fun capacity :: "nat \<Rightarrow> nat" where
  "capacity 0 = 64"
| "capacity (Suc k) = (if Suc k \<ge> capacity k then 2 * capacity k else capacity k)"

definition max_tokens :: nat where
  "max_tokens = 2 ^ 30"

text \<open>
  What \<^verbatim>\<open>cmd_parse\<close> allocates: one block per token, holding the token and its terminator,
  and cells that point to the starts of consecutive blocks.
\<close>

definition token_blocks :: "string list \<Rightarrow> heap" where
  "token_blocks ts = map (\<lambda>t. Some (t @ [NUL])) ts"

definition token_cells :: "nat \<Rightarrow> nat \<Rightarrow> cells" where
  "token_cells l m = map (\<lambda>n. Some (Ptr (l + n) 0)) [0..<m]"

text \<open>A line of \<open>n\<close> tokens.\<close>

definition big_line :: "nat \<Rightarrow> string" where
  "big_line n = concat (replicate n ''a '')"

text \<open>A process state and a session, not yet initialized, to run the functions on.\<close>

definition demo_world :: world where
  "demo_world =
     \<lparr>heap = [Some (''/home/u'' @ [NUL]), Some (''1'' @ [NUL]), Some (''foo>'' @ [NUL]),
              Some [NUL], Some ('' ls -a  '' @ [NUL])],
      strtok_save = Null,
      environ = [''HOME'' \<mapsto> Ptr 0 0, ''SKIP_EXIT'' \<mapsto> Ptr 1 0, ''MY_PROMPT'' \<mapsto> Ptr 2 0,
                 ''EMPTY'' \<mapsto> Ptr 3 0],
      uid = 1000,
      passwd = [1000 \<mapsto> Ptr 0 0],
      cwd = ''/'',
      sys_chdir = (\<lambda>d p. if p = ''/home/u'' \<or> p = ''/'' then Inr p else Inl 2),
      errno = 0,
      strerror = (\<lambda>e. if e = 2 then ''No such file or directory'' else ''Success''),
      err_out = [],
      chdir_calls = [],
      stdin_tty = False,
      pid = 42,
      sys_setpgid = (\<lambda>p g. None),
      pgrp = 1,
      term_attrs = 0,
      fg_pgrp = 1\<rparr>"

definition demo_shell :: shell where
  "demo_shell =
     \<lparr>shell_is_interactive = 0, shell_pgid = 0, shell_tmodes = 0, shell_terminal = 0,
      prompt = Null\<rparr>"

section \<open>Reading strings and argument vectors\<close>

lemma cstr_Null [simp]: "cstr h Null = None"
  by (simp add: cstr_def bytes_at_def)

lemma argv_strings_Cons:
  assumes "argv_strings h av = Some (c # args)"
  shows "\<exists>a0 rest. av = Some a0 # rest \<and> a0 \<noteq> Null \<and> cstr h a0 = Some c
           \<and> argv_strings h rest = Some args"
proof (cases av)
  case Nil
  with assms show ?thesis by simp
next
  case (Cons x rest)
  show ?thesis
  proof (cases x)
    case None
    with Cons assms show ?thesis by simp
  next
    case (Some a0)
    with Cons assms show ?thesis
      by (cases a0) (auto split: option.splits)
  qed
qed

lemma argv_strings_Nil:
  assumes "argv_strings h av = Some []"
  shows "\<exists>rest. av = Some Null # rest"
proof (cases av)
  case Nil
  with assms show ?thesis by simp
next
  case (Cons x rest)
  show ?thesis
  proof (cases x)
    case None
    with Cons assms show ?thesis by simp
  next
    case (Some a0)
    with Cons assms show ?thesis
      by (cases a0) (auto split: option.splits)
  qed
qed

lemma argv_second:
  assumes "argv_strings h av = Some (c # args)"
  shows "\<exists>a0 d1. cell av 0 = Some a0 \<and> a0 \<noteq> Null \<and> cstr h a0 = Some c \<and> cell av 1 = Some d1
           \<and> (d1 = Null \<longleftrightarrow> args = []) \<and> (args \<noteq> [] \<longrightarrow> cstr h d1 = Some (hd args))"
proof -
  from argv_strings_Cons [OF assms] obtain a0 rest where
    av: "av = Some a0 # rest" and a0: "a0 \<noteq> Null" "cstr h a0 = Some c"
    and rest: "argv_strings h rest = Some args" by blast
  show ?thesis
  proof (cases args)
    case Nil
    with rest argv_strings_Nil obtain r2 where "rest = Some Null # r2" by blast
    with av a0 Nil show ?thesis by (simp add: cell_def)
  next
    case (Cons x xs)
    with rest argv_strings_Cons [of h rest x xs] obtain a1 r2 where
      "rest = Some a1 # r2" "a1 \<noteq> Null" "cstr h a1 = Some x" by blast
    with av a0 Cons show ?thesis by (simp add: cell_def)
  qed
qed

lemma cstr_no_NUL: "cstr h p = Some v \<Longrightarrow> NUL \<notin> set v"
  by (auto simp: cstr_def split: option.splits if_splits dest: set_takeWhileD)

lemma takeWhile_until_NUL: "NUL \<notin> set v \<Longrightarrow> takeWhile (\<lambda>c. c \<noteq> NUL) (v @ NUL # r) = v"
  by (induction v) auto

lemma cstr_fresh:
  "NUL \<notin> set v \<Longrightarrow> cstr (h @ [Some (v @ [NUL])]) (Ptr (length h) 0) = Some v"
  by (simp add: cstr_def bytes_at_def block_at_def takeWhile_until_NUL)

lemma strdup_Some:
  "cstr (heap w) p = Some v \<Longrightarrow>
     strdup w p = Some (Ptr (length (heap w)) 0, w\<lparr>heap := heap w @ [Some (v @ [NUL])]\<rparr>)"
  by (simp add: strdup_def alloc_str_def)

lemma cstr_Lit: "NUL \<notin> set l \<Longrightarrow> cstr h (Lit l 0) = Some l"
  by (simp add: cstr_def bytes_at_def takeWhile_until_NUL)

lemma cstr_PtrD:
  assumes "cstr h (Ptr b i) = Some s"
  shows "\<exists>bs r. block_at h b = Some bs \<and> i \<le> length bs \<and> drop i bs = s @ NUL # r
           \<and> NUL \<notin> set s"
proof -
  from assms obtain bs where bs: "block_at h b = Some bs" "i \<le> length bs"
    and n: "NUL \<in> set (drop i bs)" and s: "s = takeWhile (\<lambda>c. c \<noteq> NUL) (drop i bs)"
    by (auto simp: cstr_def bytes_at_def split: option.splits if_splits)
  from n have "dropWhile (\<lambda>c. c \<noteq> NUL) (drop i bs) \<noteq> []"
    by (simp add: dropWhile_eq_Nil_conv) 
  then obtain r where r: "dropWhile (\<lambda>c. c \<noteq> NUL) (drop i bs) = NUL # r"
    using hd_dropWhile [of "\<lambda>c. c \<noteq> NUL" "drop i bs"]
    by (cases "dropWhile (\<lambda>c. c \<noteq> NUL) (drop i bs)") auto
  have "drop i bs = s @ NUL # r"
    using takeWhile_dropWhile_id [of "\<lambda>c. c \<noteq> NUL" "drop i bs"] s r by simp
  moreover have "NUL \<notin> set s" using s by (auto dest: set_takeWhileD)
  ultimately show ?thesis using bs by blast
qed

lemma cstr_PtrI:
  assumes "block_at h b = Some bs" and "drop i bs = s @ NUL # r" and "NUL \<notin> set s"
  shows "cstr h (Ptr b i) = Some s"
proof -
  from assms(2) have "i \<le> length bs" by (cases "i \<le> length bs") auto
  with assms show ?thesis
    by (simp add: cstr_def bytes_at_def takeWhile_until_NUL)
qed

lemma drop_nth_hd: "drop i bs = c # r \<Longrightarrow> i < length bs \<and> bs ! i = c"
  by (metis Cons_nth_drop_Suc drop_eq_Nil leI list.inject list.distinct(1))

lemma drop_Suc_tl: "drop i bs = c # r \<Longrightarrow> drop (Suc i) bs = r"
  by (metis drop_Suc list.sel(3) tl_drop)

section \<open>The prompt resolver\<close>

text \<open>
  Claim C3.  For every name of an environment variable (a readable string), \<^verbatim>\<open>get_prompt\<close>
  returns a pointer to a newly allocated block that holds a copy of the variable's value
  when the variable is set, whatever the value, the empty string included; when the variable
  is not set, the new block holds \<^verbatim>\<open>shell>\<close>.  Nothing else in the process state changes.
\<close>

theorem get_prompt_value:
  assumes "cstr (heap w) env = Some name"
  shows "(\<forall>q v. environ w name = Some q \<and> cstr (heap w) q = Some v \<longrightarrow>
            get_prompt w env =
              Ret (Ptr (length (heap w)) 0) (w\<lparr>heap := heap w @ [Some (v @ [NUL])]\<rparr>)
            \<and> cstr (heap w @ [Some (v @ [NUL])]) (Ptr (length (heap w)) 0) = Some v)
       \<and> (environ w name = None \<longrightarrow>
            get_prompt w env =
              Ret (Ptr (length (heap w)) 0) (w\<lparr>heap := heap w @ [Some (''shell>'' @ [NUL])]\<rparr>)
            \<and> cstr (heap w @ [Some (''shell>'' @ [NUL])]) (Ptr (length (heap w)) 0)
                = Some ''shell>'')"
proof (intro conjI allI impI; (elim conjE)?)
  fix q v
  assume q: "environ w name = Some q" "cstr (heap w) q = Some v"
  then have "getenv w name = q" "q \<noteq> Null" by (auto simp: getenv_def)
  with assms q show "get_prompt w env =
      Ret (Ptr (length (heap w)) 0) (w\<lparr>heap := heap w @ [Some (v @ [NUL])]\<rparr>)"
    by (simp add: get_prompt_def strdup_Some)
  from q show "cstr (heap w @ [Some (v @ [NUL])]) (Ptr (length (heap w)) 0) = Some v"
    by (simp add: cstr_fresh cstr_no_NUL)
next
  have lit: "NUL \<notin> set ''shell>''" by (simp add: NUL_def)
  assume "environ w name = None"
  then have "getenv w name = Null" by (simp add: getenv_def)
  with assms show "get_prompt w env =
      Ret (Ptr (length (heap w)) 0) (w\<lparr>heap := heap w @ [Some (''shell>'' @ [NUL])]\<rparr>)"
    by (simp add: get_prompt_def strdup_Some [OF cstr_Lit [OF lit]])
  from lit show "cstr (heap w @ [Some (''shell>'' @ [NUL])]) (Ptr (length (heap w)) 0)
      = Some ''shell>''"
    by (rule cstr_fresh)
qed


theorem get_prompt_value_witness:
  "cstr (heap demo_world) (Lit ''MY_PROMPT'' 0) = Some ''MY_PROMPT''
   \<and> get_prompt demo_world (Lit ''MY_PROMPT'' 0)
       = Ret (Ptr 5 0) (demo_world\<lparr>heap := heap demo_world @ [Some (''foo>'' @ [NUL])]\<rparr>)
   \<and> get_prompt demo_world (Lit ''EMPTY'' 0)
       = Ret (Ptr 5 0) (demo_world\<lparr>heap := heap demo_world @ [Some ([] @ [NUL])]\<rparr>)
   \<and> get_prompt demo_world (Lit ''OTHER'' 0)
       = Ret (Ptr 5 0) (demo_world\<lparr>heap := heap demo_world @ [Some (''shell>'' @ [NUL])]\<rparr>)"
proof -
  have n1: "cstr (heap demo_world) (Lit ''MY_PROMPT'' 0) = Some ''MY_PROMPT''"
    and n2: "cstr (heap demo_world) (Lit ''EMPTY'' 0) = Some ''EMPTY''"
    and n3: "cstr (heap demo_world) (Lit ''OTHER'' 0) = Some ''OTHER''"
    by (simp_all add: cstr_Lit NUL_def)
  have v1: "cstr (heap demo_world) (Ptr 2 0) = Some ''foo>''"
    and v2: "cstr (heap demo_world) (Ptr 3 0) = Some []"
    by (simp_all add: demo_world_def cstr_def bytes_at_def block_at_def NUL_def)
  have len: "length (heap demo_world) = 5"
    by (simp add: demo_world_def)
  from get_prompt_value [OF n1] v1 have "get_prompt demo_world (Lit ''MY_PROMPT'' 0)
       = Ret (Ptr 5 0) (demo_world\<lparr>heap := heap demo_world @ [Some (''foo>'' @ [NUL])]\<rparr>)"
    by (simp add: len) (simp add: demo_world_def)
  moreover from get_prompt_value [OF n2] v2 have "get_prompt demo_world (Lit ''EMPTY'' 0)
       = Ret (Ptr 5 0) (demo_world\<lparr>heap := heap demo_world @ [Some ([] @ [NUL])]\<rparr>)"
    by (simp add: len) (simp add: demo_world_def)
  moreover from get_prompt_value [OF n3] have "get_prompt demo_world (Lit ''OTHER'' 0)
       = Ret (Ptr 5 0) (demo_world\<lparr>heap := heap demo_world @ [Some (''shell>'' @ [NUL])]\<rparr>)"
    by (simp add: len) (simp add: demo_world_def)
  ultimately show ?thesis using n1 by simp
qed

section \<open>The directory changer\<close>

lemma change_dir_unresolved:
  assumes "cell dir 1 = Some d1" and "cd_target w dir = None"
  shows "change_dir w dir = Ret (- 1) (perror w ''change_dir: cannot determine home directory'')"
  using assms
  by (auto simp: change_dir_def cd_target_def Let_def split: if_splits option.splits)

lemma change_dir_resolved:
  assumes "cd_target w dir = Some t" and "cstr (heap w) t = Some path"
  shows "change_dir w dir =
     (case sys_chdir w (cwd w) path of
        Inr d \<Rightarrow> Ret 0 (w\<lparr>chdir_calls := chdir_calls w @ [path], cwd := d\<rparr>)
      | Inl e \<Rightarrow> Ret (- 1) (perror (w\<lparr>chdir_calls := chdir_calls w @ [path], errno := e\<rparr>)
                               ''change_dir''))"
proof -
  from assms(1) obtain d1 where d1: "cell dir 1 = Some d1"
    by (auto simp: cd_target_def split: option.splits)
  have ch: "chdir w t =
     (case sys_chdir w (cwd w) path of
        Inr d \<Rightarrow> Some (0, w\<lparr>chdir_calls := chdir_calls w @ [path], cwd := d\<rparr>)
      | Inl e \<Rightarrow> Some (- 1, w\<lparr>chdir_calls := chdir_calls w @ [path], errno := e\<rparr>))"
    using assms(2) by (simp add: chdir_def Let_def split: sum.splits)
  have tgt: "(if d1 = Null
                 then (let target = getenv w ''HOME'' in
                       if target = Null
                       then (case passwd w (uid w) of
                               Some pw_dir \<Rightarrow> Inr pw_dir
                             | None \<Rightarrow>
                                 Inl (perror w ''change_dir: cannot determine home directory''))
                       else Inr target)
                 else Inr d1) = Inr t"
    using assms(1) d1 by (auto simp: cd_target_def Let_def split: if_splits option.splits)
  show ?thesis
    unfolding change_dir_def d1 option.case tgt sum.case ch
    by (simp split: sum.splits)
qed

text \<open>
  Claim C4.  For every argument vector whose first element is \<^verbatim>\<open>cd\<close>, the target of
  \<^verbatim>\<open>change_dir\<close> is the second element if there is one, otherwise the value of
  \<^verbatim>\<open>HOME\<close> if it is set, otherwise the home directory of the current user in the user
  database.  When there is no target, \<^verbatim>\<open>change_dir\<close> writes a diagnostic, returns \<open>-1\<close> and
  calls \<^verbatim>\<open>chdir\<close> not at all, so the working directory stays.  When there is a target, it
  calls \<^verbatim>\<open>chdir\<close> once on it and returns \<open>0\<close> when the system accepts the change, and \<open>-1\<close>
  with a diagnostic that ends in the system's message for the error when the system refuses.
\<close>

theorem change_dir_precedence:
  assumes "argv_strings (heap w) dir = Some (''cd'' # args)"
  shows "(cd_target w dir = None \<longrightarrow>
            change_dir w dir = Ret (- 1) (perror w ''change_dir: cannot determine home directory'')
            \<and> chdir_calls (perror w ''change_dir: cannot determine home directory'') = chdir_calls w
            \<and> cwd (perror w ''change_dir: cannot determine home directory'') = cwd w
            \<and> err_out (perror w ''change_dir: cannot determine home directory'') \<noteq> err_out w)
       \<and> (\<forall>t path. cd_target w dir = Some t \<and> cstr (heap w) t = Some path \<longrightarrow>
            (\<forall>d. sys_chdir w (cwd w) path = Inr d \<longrightarrow>
               change_dir w dir = Ret 0 (w\<lparr>chdir_calls := chdir_calls w @ [path], cwd := d\<rparr>)) \<and>
            (\<forall>e. sys_chdir w (cwd w) path = Inl e \<longrightarrow>
               change_dir w dir =
                 Ret (- 1) (w\<lparr>chdir_calls := chdir_calls w @ [path], errno := e,
                   err_out := err_out w @ ''change_dir: '' @ strerror w e @ [CHR 0x0A]\<rparr>)))
       \<and> cd_target w dir =
           (if args \<noteq> [] then cell dir 1
            else if getenv w ''HOME'' \<noteq> Null then Some (getenv w ''HOME'')
            else passwd w (uid w))
       \<and> (args \<noteq> [] \<longrightarrow> (\<exists>d1. cell dir 1 = Some d1 \<and> cstr (heap w) d1 = Some (hd args)))"
    (is "?A \<and> ?B \<and> ?C \<and> ?D")
proof -
  from argv_second [OF assms] obtain d1 where
    d1: "cell dir 1 = Some d1" "d1 = Null \<longleftrightarrow> args = []"
        "args \<noteq> [] \<longrightarrow> cstr (heap w) d1 = Some (hd args)"
    by blast
  have a: ?A
    using change_dir_unresolved [OF d1(1)] by (simp add: perror_def)
  have b: ?B
  proof (intro allI impI, elim conjE)
    fix t path
    assume "cd_target w dir = Some t" "cstr (heap w) t = Some path"
    from change_dir_resolved [OF this]
    show "(\<forall>d. sys_chdir w (cwd w) path = Inr d \<longrightarrow>
               change_dir w dir = Ret 0 (w\<lparr>chdir_calls := chdir_calls w @ [path], cwd := d\<rparr>)) \<and>
            (\<forall>e. sys_chdir w (cwd w) path = Inl e \<longrightarrow>
               change_dir w dir =
                 Ret (- 1) (w\<lparr>chdir_calls := chdir_calls w @ [path], errno := e,
                   err_out := err_out w @ ''change_dir: '' @ strerror w e @ [CHR 0x0A]\<rparr>))"
      by (simp add: perror_def)
  qed
  have c: ?C
    using d1 by (simp add: cd_target_def)
  have d: ?D
    using d1 by simp
  from a b c d show ?thesis by blast
qed


theorem change_dir_precedence_witness:
  "argv_strings (heap demo_world) [Some (Lit ''cd'' 0), Some (Lit ''/nowhere'' 0), Some Null]
     = Some [''cd'', ''/nowhere'']
   \<and> change_dir demo_world [Some (Lit ''cd'' 0), Some (Lit ''/nowhere'' 0), Some Null]
       = Ret (- 1) (demo_world\<lparr>chdir_calls := [''/nowhere''], errno := 2,
           err_out := ''change_dir: No such file or directory'' @ [CHR 0x0A]\<rparr>)
   \<and> change_dir demo_world [Some (Lit ''cd'' 0), Some Null]
       = Ret 0 (demo_world\<lparr>chdir_calls := [''/home/u''], cwd := ''/home/u''\<rparr>)
   \<and> change_dir (demo_world\<lparr>environ := Map.empty, passwd := Map.empty\<rparr>)
         [Some (Lit ''cd'' 0), Some Null]
       = Ret (- 1) (perror (demo_world\<lparr>environ := Map.empty, passwd := Map.empty\<rparr>)
           ''change_dir: cannot determine home directory'')"
proof -
  have lits: "cstr h (Lit ''cd'' 0) = Some ''cd''" "cstr h (Lit ''/nowhere'' 0) = Some ''/nowhere''"
    for h
    by (simp_all add: cstr_Lit NUL_def)
  have home: "cstr (heap demo_world) (Ptr 0 0) = Some ''/home/u''"
    by (simp add: demo_world_def cstr_def bytes_at_def block_at_def NUL_def)
  have a1: "argv_strings (heap demo_world)
      [Some (Lit ''cd'' 0), Some (Lit ''/nowhere'' 0), Some Null] = Some [''cd'', ''/nowhere'']"
    by (simp add: lits)
  have a2: "argv_strings (heap w) [Some (Lit ''cd'' 0), Some Null] = Some [''cd'']" for w
    by (simp add: lits)
  have t1: "cd_target demo_world [Some (Lit ''cd'' 0), Some (Lit ''/nowhere'' 0), Some Null]
      = Some (Lit ''/nowhere'' 0)"
    by (simp add: cd_target_def cell_def)
  have s1: "sys_chdir demo_world (cwd demo_world) ''/nowhere'' = Inl 2"
    by (simp add: demo_world_def)
  from change_dir_precedence [OF a1] t1 lits(2) s1
  have "change_dir demo_world [Some (Lit ''cd'' 0), Some (Lit ''/nowhere'' 0), Some Null]
       = Ret (- 1) (demo_world\<lparr>chdir_calls := chdir_calls demo_world @ [''/nowhere''],
           errno := 2,
           err_out := err_out demo_world @ ''change_dir: '' @ strerror demo_world 2 @ [CHR 0x0A]\<rparr>)"
    by blast
  then have r1: "change_dir demo_world [Some (Lit ''cd'' 0), Some (Lit ''/nowhere'' 0), Some Null]
       = Ret (- 1) (demo_world\<lparr>chdir_calls := [''/nowhere''], errno := 2,
           err_out := ''change_dir: No such file or directory'' @ [CHR 0x0A]\<rparr>)"
    by (simp add: demo_world_def)
  have t2: "cd_target demo_world [Some (Lit ''cd'' 0), Some Null] = Some (Ptr 0 0)"
    by (simp add: cd_target_def cell_def getenv_def demo_world_def)
  have s2: "sys_chdir demo_world (cwd demo_world) ''/home/u'' = Inr ''/home/u''"
    by (simp add: demo_world_def)
  from change_dir_precedence [OF a2, of demo_world] t2 home s2
  have "change_dir demo_world [Some (Lit ''cd'' 0), Some Null]
       = Ret 0 (demo_world\<lparr>chdir_calls := chdir_calls demo_world @ [''/home/u''],
           cwd := ''/home/u''\<rparr>)"
    by blast
  then have r2: "change_dir demo_world [Some (Lit ''cd'' 0), Some Null]
       = Ret 0 (demo_world\<lparr>chdir_calls := [''/home/u''], cwd := ''/home/u''\<rparr>)"
    by (simp add: demo_world_def)
  have t3: "cd_target (demo_world\<lparr>environ := Map.empty, passwd := Map.empty\<rparr>)
      [Some (Lit ''cd'' 0), Some Null] = None"
    by (simp add: cd_target_def cell_def getenv_def)
  from change_dir_precedence [OF a2,
      of "demo_world\<lparr>environ := Map.empty, passwd := Map.empty\<rparr>"] t3
  have r3: "change_dir (demo_world\<lparr>environ := Map.empty, passwd := Map.empty\<rparr>)
         [Some (Lit ''cd'' 0), Some Null]
       = Ret (- 1) (perror (demo_world\<lparr>environ := Map.empty, passwd := Map.empty\<rparr>)
           ''change_dir: cannot determine home directory'')"
    by blast
  from a1 r1 r2 r3 show ?thesis by blast
qed

section \<open>The built-in commands\<close>

text \<open>
  Claim C5.  For every argument vector whose first token is \<^verbatim>\<open>cd\<close> (the target, if any,
  being a readable string), \<^verbatim>\<open>change_dir\<close> returns some indicator \<open>r\<close>, and
  \<^verbatim>\<open>do_builtin\<close> returns true in the state \<^verbatim>\<open>change_dir\<close> left, whatever \<open>r\<close> is.
\<close>

theorem do_builtin_cd_handled:
  assumes "argv_strings (heap w) av = Some (''cd'' # args)"
    and "\<forall>t. cd_target w av = Some t \<longrightarrow> cstr (heap w) t \<noteq> None"
  shows "\<exists>r w'. change_dir w av = Ret r w' \<and> do_builtin w sh (Some av) = Ret True w'"
proof -
  from argv_second [OF assms(1)] obtain a0 d1 where
    a0: "cell av 0 = Some a0" "a0 \<noteq> Null" "cstr (heap w) a0 = Some ''cd''"
    and d1: "cell av 1 = Some d1" by blast
  have "\<exists>r w'. change_dir w av = Ret r w'"
  proof (cases "cd_target w av")
    case None
    with change_dir_unresolved [OF d1] show ?thesis by blast
  next
    case (Some t)
    with assms(2) obtain path where "cstr (heap w) t = Some path" by auto
    from change_dir_resolved [OF Some this] show ?thesis
      by (cases "sys_chdir w (cwd w) path") auto
  qed
  then obtain r w' where r: "change_dir w av = Ret r w'" by blast
  with a0 have "do_builtin w sh (Some av) = Ret True w'"
    by (simp add: do_builtin_def streq_def)
  with r show ?thesis by blast
qed



theorem do_builtin_cd_handled_witness:
  "argv_strings (heap demo_world) [Some (Lit ''cd'' 0), Some (Lit ''/nowhere'' 0), Some Null]
     = Some [''cd'', ''/nowhere'']
   \<and> change_dir demo_world [Some (Lit ''cd'' 0), Some (Lit ''/nowhere'' 0), Some Null]
       = Ret (- 1) (demo_world\<lparr>chdir_calls := [''/nowhere''], errno := 2,
           err_out := ''change_dir: No such file or directory'' @ [CHR 0x0A]\<rparr>)
   \<and> do_builtin demo_world (Some demo_shell)
         (Some [Some (Lit ''cd'' 0), Some (Lit ''/nowhere'' 0), Some Null])
       = Ret True (demo_world\<lparr>chdir_calls := [''/nowhere''], errno := 2,
           err_out := ''change_dir: No such file or directory'' @ [CHR 0x0A]\<rparr>)"
proof -
  have lits: "cstr h (Lit ''cd'' 0) = Some ''cd''" "cstr h (Lit ''/nowhere'' 0) = Some ''/nowhere''"
    for h
    by (simp_all add: cstr_Lit NUL_def)
  have a1: "argv_strings (heap demo_world)
      [Some (Lit ''cd'' 0), Some (Lit ''/nowhere'' 0), Some Null] = Some [''cd'', ''/nowhere'']"
    by (simp add: lits)
  have t: "\<forall>t. cd_target demo_world [Some (Lit ''cd'' 0), Some (Lit ''/nowhere'' 0), Some Null]
      = Some t \<longrightarrow> cstr (heap demo_world) t \<noteq> None"
    by (simp add: cd_target_def cell_def lits)
  have c: "change_dir demo_world [Some (Lit ''cd'' 0), Some (Lit ''/nowhere'' 0), Some Null]
       = Ret (- 1) (demo_world\<lparr>chdir_calls := [''/nowhere''], errno := 2,
           err_out := ''change_dir: No such file or directory'' @ [CHR 0x0A]\<rparr>)"
  proof -
    have tg: "cd_target demo_world [Some (Lit ''cd'' 0), Some (Lit ''/nowhere'' 0), Some Null]
        = Some (Lit ''/nowhere'' 0)"
      by (simp add: cd_target_def cell_def)
    from change_dir_resolved [OF tg lits(2)] show ?thesis
      by (simp add: perror_def demo_world_def)
  qed
  from do_builtin_cd_handled [OF a1 t, of "Some demo_shell"] c a1 show ?thesis
    by auto
qed

text \<open>
  Claim C6.  For every argument vector whose first token is \<^verbatim>\<open>exit\<close>: when
  \<^verbatim>\<open>SKIP_EXIT\<close> is not set the process ends with status 0; when it is set to a value \<open>v\<close>,
  \<^verbatim>\<open>do_builtin\<close> returns true and the process goes on if \<open>v\<close> is \<^verbatim>\<open>1\<close>, and the process ends
  with status 0 otherwise.  The process state is the one before the call in each case.
\<close>

theorem do_builtin_exit:
  assumes "cell av 0 = Some a0" and "cstr (heap w) a0 = Some ''exit''"
  shows "(getenv w ''SKIP_EXIT'' = Null \<longrightarrow> do_builtin w sh (Some av) = Exit 0 w) \<and>
     (\<forall>v. cstr (heap w) (getenv w ''SKIP_EXIT'') = Some v \<longrightarrow>
        do_builtin w sh (Some av) = (if v = ''1'' then Ret True w else Exit 0 w))"
proof -
  have "cstr (heap w) (getenv w ''SKIP_EXIT'') = Some v \<Longrightarrow> getenv w ''SKIP_EXIT'' \<noteq> Null" for v
    by auto
  with assms show ?thesis
    by (auto simp: do_builtin_def streq_def Let_def)
qed



theorem do_builtin_exit_witness:
  "cell [Some (Lit ''exit'' 0), Some Null] 0 = Some (Lit ''exit'' 0)
   \<and> cstr (heap demo_world) (Lit ''exit'' 0) = Some ''exit''
   \<and> do_builtin demo_world None (Some [Some (Lit ''exit'' 0), Some Null]) = Ret True demo_world
   \<and> do_builtin (demo_world\<lparr>environ := [''SKIP_EXIT'' \<mapsto> Ptr 0 0]\<rparr>) None
         (Some [Some (Lit ''exit'' 0), Some Null])
       = Exit 0 (demo_world\<lparr>environ := [''SKIP_EXIT'' \<mapsto> Ptr 0 0]\<rparr>)
   \<and> do_builtin (demo_world\<lparr>environ := Map.empty\<rparr>) None
         (Some [Some (Lit ''exit'' 0), Some Null])
       = Exit 0 (demo_world\<lparr>environ := Map.empty\<rparr>)"
proof -
  have c: "cell [Some (Lit ''exit'' 0), Some Null] 0 = Some (Lit ''exit'' 0)"
    by (simp add: cell_def)
  have l: "cstr h (Lit ''exit'' 0) = Some ''exit''" for h
    by (simp add: cstr_Lit NUL_def)
  have v1: "cstr (heap demo_world) (Ptr 1 0) = Some ''1''"
    and v0: "cstr (heap demo_world) (Ptr 0 0) = Some ''/home/u''"
    by (simp_all add: demo_world_def cstr_def bytes_at_def block_at_def NUL_def)
  have g1: "getenv demo_world ''SKIP_EXIT'' = Ptr 1 0"
    by (simp add: getenv_def demo_world_def)
  have "do_builtin demo_world None (Some [Some (Lit ''exit'' 0), Some Null]) = Ret True demo_world"
    using do_builtin_exit [OF c l, of demo_world None] v1 g1 by simp
  moreover have "do_builtin (demo_world\<lparr>environ := [''SKIP_EXIT'' \<mapsto> Ptr 0 0]\<rparr>) None
         (Some [Some (Lit ''exit'' 0), Some Null])
       = Exit 0 (demo_world\<lparr>environ := [''SKIP_EXIT'' \<mapsto> Ptr 0 0]\<rparr>)"
    using do_builtin_exit [OF c l, of "demo_world\<lparr>environ := [''SKIP_EXIT'' \<mapsto> Ptr 0 0]\<rparr>" None] v0
    by (simp add: getenv_def)
  moreover have "do_builtin (demo_world\<lparr>environ := Map.empty\<rparr>) None
         (Some [Some (Lit ''exit'' 0), Some Null])
       = Exit 0 (demo_world\<lparr>environ := Map.empty\<rparr>)"
    using do_builtin_exit [OF c l, of "demo_world\<lparr>environ := Map.empty\<rparr>" None]
    by (simp add: getenv_def)
  ultimately show ?thesis using c l by simp
qed

text \<open>
  Claim C7.  \<^verbatim>\<open>do_builtin\<close> returns false, and changes nothing, for the null vector, for a
  vector whose first cell is null, and for a first token other than \<^verbatim>\<open>exit\<close>, \<^verbatim>\<open>cd\<close> and
  \<^verbatim>\<open>history\<close>; for \<^verbatim>\<open>history\<close> it returns true and changes nothing.
\<close>

theorem do_builtin_other:
  "do_builtin w sh None = Ret False w \<and>
   (cell av 0 = Some Null \<longrightarrow> do_builtin w sh (Some av) = Ret False w) \<and>
   (\<forall>a0 cmd. cell av 0 = Some a0 \<and> cstr (heap w) a0 = Some cmd \<longrightarrow>
      (cmd \<noteq> ''exit'' \<and> cmd \<noteq> ''cd'' \<and> cmd \<noteq> ''history'' \<longrightarrow>
         do_builtin w sh (Some av) = Ret False w) \<and>
      (cmd = ''history'' \<longrightarrow> do_builtin w sh (Some av) = Ret True w))"
  by (auto simp: do_builtin_def streq_def)


theorem do_builtin_other_witness:
  "do_builtin demo_world (Some demo_shell) None = Ret False demo_world
   \<and> do_builtin demo_world (Some demo_shell) (Some [Some Null]) = Ret False demo_world
   \<and> do_builtin demo_world (Some demo_shell) (Some [Some (Lit ''ls'' 0), Some Null])
       = Ret False demo_world
   \<and> do_builtin demo_world (Some demo_shell) (Some [Some (Lit ''history'' 0), Some Null])
       = Ret True demo_world"
proof -
  have l: "cstr h (Lit ''ls'' 0) = Some ''ls''" "cstr h (Lit ''history'' 0) = Some ''history''" for h
    by (simp_all add: cstr_Lit NUL_def)
  show ?thesis
    using do_builtin_other [of demo_world "Some demo_shell" "[Some Null]"]
      do_builtin_other [of demo_world "Some demo_shell" "[Some (Lit ''ls'' 0), Some Null]"]
      do_builtin_other [of demo_world "Some demo_shell" "[Some (Lit ''history'' 0), Some Null]"]
      l
    by (simp add: cell_def)
qed

text \<open>
  Claim C10.  The result of \<^verbatim>\<open>do_builtin\<close>, that is the value returned or the exit status
  together with the process state reached, is the same for any two session arguments, the
  null session included.
\<close>

theorem do_builtin_session: "do_builtin w sh1 argv = do_builtin w sh2 argv"
  by (simp add: do_builtin_def)


theorem do_builtin_session_witness:
  "do_builtin demo_world None (Some [Some (Lit ''cd'' 0), Some Null])
     = do_builtin demo_world (Some demo_shell) (Some [Some (Lit ''cd'' 0), Some Null])"
  by (rule do_builtin_session)

section \<open>The session\<close>

lemma get_prompt_owned:
  assumes "get_prompt w env = Ret p w'"
  shows "\<exists>v. p = Ptr (length (heap w)) 0 \<and> heap w' = heap w @ [Some (v @ [NUL])]"
  using assms
  by (auto simp: get_prompt_def strdup_def alloc_str_def Let_def split: option.splits if_splits)

lemma sh_init_owns_prompt:
  assumes "sh_init w (Some s0) = Ret (Some s) w'"
  shows "\<exists>b bs. prompt s = Ptr b 0 \<and> block_at (heap w') b = Some bs"
proof -
  from assms obtain s4 w4 p where
    gp: "get_prompt w4 (Lit ''MY_PROMPT'' 0) = Ret p w'" and s: "s = s4\<lparr>prompt := p\<rparr>"
    by (auto simp: sh_init_def Let_def split: option.splits sum.splits res.splits if_splits prod.splits)
  from get_prompt_owned [OF gp] obtain v where
    "p = Ptr (length (heap w4)) 0" "heap w' = heap w4 @ [Some (v @ [NUL])]" by blast
  with s show ?thesis by (simp add: block_at_def)
qed

text \<open>
  Claim C9.  A session is initialized when its prompt points to the start of a live block,
  which is what \<^verbatim>\<open>sh_init\<close> leaves (\<open>sh_init_owns_prompt\<close>).  For every such session
  \<^verbatim>\<open>sh_destroy\<close> frees that block and sets the prompt to null; the other fields of the
  session and the rest of the process state stay.  A second call on the result returns the
  same session and state: nothing is freed twice.
\<close>

theorem sh_destroy_releases_prompt:
  assumes "prompt s = Ptr b 0" and "block_at (heap w) b = Some bs"
  shows "sh_destroy w (Some s) = Ret (Some (s\<lparr>prompt := Null\<rparr>)) (w\<lparr>heap := (heap w)[b := None]\<rparr>)
       \<and> block_at ((heap w)[b := None]) b = None
       \<and> sh_destroy (w\<lparr>heap := (heap w)[b := None]\<rparr>) (Some (s\<lparr>prompt := Null\<rparr>))
           = Ret (Some (s\<lparr>prompt := Null\<rparr>)) (w\<lparr>heap := (heap w)[b := None]\<rparr>)"
  using assms by (simp add: sh_destroy_def free_def block_at_def)


theorem sh_destroy_releases_prompt_witness:
  "sh_init demo_world (Some demo_shell)
     = Ret (Some (demo_shell\<lparr>prompt := Ptr 5 0\<rparr>))
         (demo_world\<lparr>heap := heap demo_world @ [Some (''foo>'' @ [NUL])]\<rparr>)
   \<and> sh_destroy (demo_world\<lparr>heap := heap demo_world @ [Some (''foo>'' @ [NUL])]\<rparr>)
         (Some (demo_shell\<lparr>prompt := Ptr 5 0\<rparr>))
       = Ret (Some demo_shell) (demo_world\<lparr>heap := heap demo_world @ [None]\<rparr>)
   \<and> sh_destroy (demo_world\<lparr>heap := heap demo_world @ [None]\<rparr>) (Some demo_shell)
       = Ret (Some demo_shell) (demo_world\<lparr>heap := heap demo_world @ [None]\<rparr>)"
proof -
  let ?w = "demo_world\<lparr>heap := heap demo_world @ [Some (''foo>'' @ [NUL])]\<rparr>"
  let ?s = "demo_shell\<lparr>prompt := Ptr 5 0\<rparr>"
  have init: "sh_init demo_world (Some demo_shell) = Ret (Some ?s) ?w"
    by (simp add: sh_init_def isatty_def getenv_def get_prompt_def strdup_def alloc_str_def
        cstr_def bytes_at_def block_at_def demo_world_def demo_shell_def NUL_def)
  have p: "prompt ?s = Ptr 5 0" by simp
  have b: "block_at (heap ?w) 5 = Some (''foo>'' @ [NUL])"
    by (simp add: demo_world_def block_at_def)
  have f: "?w\<lparr>heap := (heap ?w)[5 := None]\<rparr> = demo_world\<lparr>heap := heap demo_world @ [None]\<rparr>"
    by (simp add: demo_world_def)
  have n: "?s\<lparr>prompt := Null\<rparr> = demo_shell"
    by (simp add: demo_shell_def)
  from sh_destroy_releases_prompt [OF p b] init show ?thesis
    unfolding f n by simp
qed

section \<open>The trimmer in place\<close>

lemma skip_leading_spec:
  "drop i bs = s @ NUL # r \<Longrightarrow> NUL \<notin> set s \<Longrightarrow>
     skip_leading bs i = Some (i + length (takeWhile isspace s))"
proof (induction s arbitrary: i)
  case Nil
  then have "i < length bs" "bs ! i = NUL" using drop_nth_hd [of i bs NUL r] by auto
  then show ?case by (subst skip_leading.simps) simp
next
  case (Cons c s)
  from Cons.prems have c: "i < length bs" "bs ! i = c" "c \<noteq> NUL"
    using drop_nth_hd [of i bs c "s @ NUL # r"] by auto
  from Cons.prems have d: "drop (Suc i) bs = s @ NUL # r"
    using drop_Suc_tl [of i bs c "s @ NUL # r"] by simp
  show ?case
  proof (cases "isspace c")
    case True
    with c Cons.IH [OF d] Cons.prems(2) show ?thesis
      by (subst skip_leading.simps) simp
  next
    case False
    with c show ?thesis by (subst skip_leading.simps) simp
  qed
qed

lemma strlen_spec: "NUL \<notin> set s \<Longrightarrow> strlen (s @ NUL # r) = Some (length s)"
  by (induction s) auto

lemma skip_trailing_spec:
  assumes "xs \<noteq> []" and "\<not> isspace (hd xs)"
    and "\<forall>k < length xs. j + k < length bs \<and> bs ! (j + k) = xs ! k"
  shows "skip_trailing bs j (j + length xs - 1)
       = Some (j + length (dropWhile isspace (rev xs)) - 1)"
  using assms
proof (induction xs rule: rev_induct)
  case Nil
  then show ?case by simp
next
  case (snoc c ys)
  show ?case
  proof (cases "ys = []")
    case True
    with snoc.prems show ?thesis by (subst skip_trailing.simps) simp
  next
    case False
    have e: "j + length (ys @ [c]) - 1 = j + length ys" by simp
    from snoc.prems(3) have at: "j + length ys < length bs" "bs ! (j + length ys) = c"
      by (auto dest: spec [of _ "length ys"])
    have pos: "j + length ys > j" using False by simp
    show ?thesis
    proof (cases "isspace c")
      case True
      have hd: "\<not> isspace (hd ys)" using snoc.prems(2) False by simp
      have idx: "\<forall>k < length ys. j + k < length bs \<and> bs ! (j + k) = ys ! k"
        using snoc.prems(3) by (auto simp: nth_append dest: spec)
      from snoc.IH [OF False hd idx] True at pos show ?thesis
        unfolding e by (subst skip_trailing.simps) simp
    next
      case False
      with at pos show ?thesis unfolding e by (subst skip_trailing.simps) simp
    qed
  qed
qed


lemma rev_dropWhile_rev_take:
  "rev (dropWhile P (rev xs)) = take (length (dropWhile P (rev xs))) xs"
proof -
  have "rev xs = takeWhile P (rev xs) @ dropWhile P (rev xs)" by simp
  then have "xs = rev (dropWhile P (rev xs)) @ rev (takeWhile P (rev xs))"
    by (metis rev_append rev_rev_ident)
  then have "take (length (rev (dropWhile P (rev xs)))) xs = rev (dropWhile P (rev xs))"
    by (metis append_eq_conv_conj)
  then show ?thesis by simp
qed

lemma strip_ws_decomp:
  "\<exists>l t. s = l @ strip_ws s @ t \<and> (\<forall>c\<in>set l. isspace c) \<and> (\<forall>c\<in>set t. isspace c)"
proof -
  let ?s' = "dropWhile isspace s"
  have "rev ?s' = takeWhile isspace (rev ?s') @ dropWhile isspace (rev ?s')" by simp
  then have "?s' = strip_ws s @ rev (takeWhile isspace (rev ?s'))"
    unfolding strip_ws_def by (metis rev_append rev_rev_ident)
  then have "s = takeWhile isspace s @ strip_ws s @ rev (takeWhile isspace (rev ?s'))"
    by (metis takeWhile_dropWhile_id)
  moreover have "\<forall>c\<in>set (takeWhile isspace s). isspace c"
    by (auto dest: set_takeWhileD)
  moreover have "\<forall>c\<in>set (rev (takeWhile isspace (rev ?s'))). isspace c"
    by (auto dest: set_takeWhileD)
  ultimately show ?thesis by blast
qed

lemma dropWhile_rev_nonempty:
  assumes "xs \<noteq> []" and "\<not> P (hd xs)"
  shows "dropWhile P (rev xs) \<noteq> [] \<and> last (dropWhile P (rev xs)) = hd xs"
proof -
  from assms obtain x r where xs: "xs = x # r" by (cases xs) auto
  with assms have "dropWhile P (rev r @ [x]) = dropWhile P (rev r) @ [x]"
    by (simp add: dropWhile_append)
  with xs show ?thesis by simp
qed


lemma strip_ws_ends:
  assumes "strip_ws s \<noteq> []"
  shows "\<not> isspace (hd (strip_ws s)) \<and> \<not> isspace (last (strip_ws s))"
proof -
  let ?s' = "dropWhile isspace s"
  have ne: "?s' \<noteq> []"
  proof
    assume "?s' = []"
    then have "strip_ws s = []" by (auto simp: strip_ws_def dest: set_dropWhileD)
    with assms show False by simp
  qed
  then have h: "\<not> isspace (hd ?s')" by (rule hd_dropWhile)
  from dropWhile_rev_nonempty [of ?s' isspace, OF ne h]
  have d: "dropWhile isspace (rev ?s') \<noteq> []" "last (dropWhile isspace (rev ?s')) = hd ?s'"
    by auto
  have "hd (strip_ws s) = last (dropWhile isspace (rev ?s'))"
    using d(1) by (simp add: strip_ws_def hd_rev)
  moreover have "last (strip_ws s) = hd (dropWhile isspace (rev ?s'))"
    using d(1) by (simp add: strip_ws_def last_rev)
  moreover have "\<not> isspace (hd (dropWhile isspace (rev ?s')))"
    using d(1) by (rule hd_dropWhile)
  ultimately show ?thesis using h d(2) by simp
qed

lemma strip_ws_all_space: "\<forall>c\<in>set s. isspace c \<Longrightarrow> strip_ws s = []"
  by (auto simp: strip_ws_def dest: set_dropWhileD)

lemma trim_white_Ptr:
  assumes "cstr (heap w) (Ptr b i) = Some s"
  shows "\<exists>bs bs'. block_at (heap w) b = Some bs \<and> length bs' = length bs
           \<and> trim_white w (Ptr b i)
               = Ret (Ptr b (i + length (takeWhile isspace s)))
                   (w\<lparr>heap := (heap w)[b := Some bs']\<rparr>)
           \<and> cstr ((heap w)[b := Some bs']) (Ptr b (i + length (takeWhile isspace s)))
               = Some (strip_ws s)"
proof -
  from cstr_PtrD [OF assms] obtain bs r where
    bs: "block_at (heap w) b = Some bs" and d: "drop i bs = s @ NUL # r" and n: "NUL \<notin> set s"
    by blast
  let ?lead = "takeWhile isspace s"
  let ?s' = "dropWhile isspace s"
  let ?j = "i + length ?lead"
  have blen: "b < length (heap w)" and hb: "heap w ! b = Some bs"
    using bs by (auto simp: block_at_def split: if_splits)
  have e: "s @ NUL # r = ?lead @ (?s' @ NUL # r)" by simp
  have "drop ?j bs = drop (length ?lead) (drop i bs)" by (simp add: add.commute)
  also have "\<dots> = drop (length ?lead) (?lead @ (?s' @ NUL # r))" by (simp only: d e)
  also have "\<dots> = ?s' @ NUL # r" by simp
  finally have dj: "drop ?j bs = ?s' @ NUL # r" .
  have n': "NUL \<notin> set ?s'" using n by (auto dest: set_dropWhileD)
  have sl: "skip_leading bs i = Some ?j" using skip_leading_spec [OF d n] .
  have upd: "block_at ((heap w)[b := Some x]) b = Some x" for x
    using blen by (simp add: block_at_def)
  show ?thesis
  proof (cases "?s' = []")
    case True
    with dj have z: "bs ! ?j = NUL" using drop_nth_hd [of ?j bs NUL r] by simp
    have same: "(heap w)[b := Some bs] = heap w" using hb blen by (metis list_update_id)
    have tw: "trim_white w (Ptr b i) = Ret (Ptr b ?j) (w\<lparr>heap := (heap w)[b := Some bs]\<rparr>)"
      using bs sl z by (simp add: trim_white_def same)
    have "cstr (heap w) (Ptr b ?j) = Some []"
      using cstr_PtrI [OF bs, of ?j "[]" r] dj True by simp
    moreover have "strip_ws s = []" using True by (auto simp: strip_ws_def dest: set_dropWhileD)
    ultimately show ?thesis using bs tw same by auto
  next
    case False
    then obtain c cs where cs: "?s' = c # cs" by (cases ?s') auto
    have hdc: "\<not> isspace (hd ?s')" using False by (rule hd_dropWhile)
    from dj cs have cj: "?j < length bs" "bs ! ?j = c"
      using drop_nth_hd [of ?j bs c "cs @ NUL # r"] by auto
    have cn: "c \<noteq> NUL" using n' cs by auto
    have len: "strlen (drop ?j bs) = Some (length ?s')"
      using dj strlen_spec [OF n'] by simp
    have idx: "\<forall>k < length ?s'. ?j + k < length bs \<and> bs ! (?j + k) = ?s' ! k"
    proof (intro allI impI)
      fix k assume k: "k < length ?s'"
      have "length (drop ?j bs) = length ?s' + Suc (length r)" using dj by simp
      then have a: "?j + k < length bs" using k by simp
      then have "bs ! (?j + k) = drop ?j bs ! k" by simp
      also have "\<dots> = ?s' ! k" using dj k by (simp add: nth_append)
      finally show "?j + k < length bs \<and> bs ! (?j + k) = ?s' ! k" using a by simp
    qed
    let ?L = "length (dropWhile isspace (rev ?s'))"
    from dropWhile_rev_nonempty [of ?s' isspace, OF False hdc] have Lpos: "0 < ?L" by simp
    have Lle: "?L \<le> length ?s'"
      by (metis length_dropWhile_le length_rev)
    have st: "skip_trailing bs ?j (?j + length ?s' - 1) = Some (?j + ?L - 1)"
      using skip_trailing_spec [OF False hdc idx] .
    have lbs: "length bs = ?j + length ?s' + Suc (length r)"
    proof -
      have "length (drop ?j bs) = length ?s' + Suc (length r)" using dj by simp
      then show ?thesis using cj(1) by simp
    qed
    have inb: "Suc (?j + ?L - 1) < length bs" using Lpos Lle lbs by simp
    have se: "Suc (?j + ?L - 1) = ?j + ?L" using Lpos by simp
    let ?bs' = "bs[?j + ?L := NUL]"
    have tw: "trim_white w (Ptr b i) = Ret (Ptr b ?j) (w\<lparr>heap := (heap w)[b := Some ?bs']\<rparr>)"
      using bs sl cj cn len st inb se by (simp add: trim_white_def)
    have "drop ?j ?bs' = (drop ?j bs)[?L := NUL]" by (simp add: drop_update_swap)
    also have "\<dots> = take ?L (?s' @ NUL # r) @ NUL # drop (Suc ?L) (?s' @ NUL # r)"
      using dj Lle by (simp add: upd_conv_take_nth_drop)
    also have "take ?L (?s' @ NUL # r) = strip_ws s"
      using Lle rev_dropWhile_rev_take [of isspace ?s'] by (simp add: strip_ws_def)
    finally have dr: "drop ?j ?bs' = strip_ws s @ NUL # drop (Suc ?L) (?s' @ NUL # r)" .
    have "set (strip_ws s) \<subseteq> set s"
      unfolding strip_ws_def by (metis set_dropWhileD set_rev subsetI)
    with n have ns: "NUL \<notin> set (strip_ws s)" by auto
    have "cstr ((heap w)[b := Some ?bs']) (Ptr b ?j) = Some (strip_ws s)"
      using cstr_PtrI [OF upd dr ns] .
    with bs tw show ?thesis by (intro exI [of _ bs] exI [of _ ?bs']) simp
  qed
qed

text \<open>
  Claim C2.  \<^verbatim>\<open>trim_white\<close> returns the null pointer for the null pointer and changes
  nothing.  For a pointer into a block at which a string \<open>s\<close> can be read, it returns a
  pointer into the same block, advanced by the number of leading white-space characters of
  \<open>s\<close>; no block is allocated, only that block is written, its size stays, and the string
  read at the returned pointer afterwards is \<open>s\<close> without its leading and trailing white
  space: \<open>s\<close> is white space, then the result, then white space, and the result neither
  starts nor ends with white space.  A string of white space only gives the empty string.
\<close>

theorem trim_white_in_place:
  "trim_white w Null = Ret Null w \<and>
   (\<forall>b i s. cstr (heap w) (Ptr b i) = Some s \<longrightarrow>
      (\<exists>bs bs'. block_at (heap w) b = Some bs \<and> length bs' = length bs
         \<and> trim_white w (Ptr b i)
             = Ret (Ptr b (i + length (takeWhile isspace s)))
                 (w\<lparr>heap := (heap w)[b := Some bs']\<rparr>)
         \<and> cstr ((heap w)[b := Some bs']) (Ptr b (i + length (takeWhile isspace s)))
             = Some (strip_ws s))
      \<and> (\<exists>l t. s = l @ strip_ws s @ t \<and> (\<forall>c\<in>set l. isspace c) \<and> (\<forall>c\<in>set t. isspace c))
      \<and> (strip_ws s \<noteq> [] \<longrightarrow> \<not> isspace (hd (strip_ws s)) \<and> \<not> isspace (last (strip_ws s)))
      \<and> ((\<forall>c\<in>set s. isspace c) \<longrightarrow> strip_ws s = []))"
proof (intro conjI allI impI)
  show "trim_white w Null = Ret Null w"
    by (simp add: trim_white_def)
next
  fix b i s
  assume "cstr (heap w) (Ptr b i) = Some s"
  then show "\<exists>bs bs'. block_at (heap w) b = Some bs \<and> length bs' = length bs
         \<and> trim_white w (Ptr b i)
             = Ret (Ptr b (i + length (takeWhile isspace s)))
                 (w\<lparr>heap := (heap w)[b := Some bs']\<rparr>)
         \<and> cstr ((heap w)[b := Some bs']) (Ptr b (i + length (takeWhile isspace s)))
             = Some (strip_ws s)"
    by (rule trim_white_Ptr)
next
  fix s
  show "\<exists>l t. s = l @ strip_ws s @ t \<and> (\<forall>c\<in>set l. isspace c) \<and> (\<forall>c\<in>set t. isspace c)"
    by (rule strip_ws_decomp)
next
  fix s
  assume "strip_ws s \<noteq> []"
  then show "\<not> isspace (hd (strip_ws s))" "\<not> isspace (last (strip_ws s))"
    using strip_ws_ends by blast+
next
  fix s
  assume "\<forall>c\<in>set s. isspace c"
  then show "strip_ws s = []" by (rule strip_ws_all_space)
qed

theorem trim_white_in_place_witness:
  "cstr (heap demo_world) (Ptr 4 0) = Some '' ls -a  ''
   \<and> (\<exists>bs'. trim_white demo_world (Ptr 4 0)
              = Ret (Ptr 4 1) (demo_world\<lparr>heap := (heap demo_world)[4 := Some bs']\<rparr>)
         \<and> length bs' = 9
         \<and> cstr ((heap demo_world)[4 := Some bs']) (Ptr 4 1) = Some ''ls -a'')
   \<and> trim_white demo_world Null = Ret Null demo_world"
proof -
  have c: "cstr (heap demo_world) (Ptr 4 0) = Some '' ls -a  ''"
    by (simp add: demo_world_def cstr_def bytes_at_def block_at_def NUL_def)
  have b: "block_at (heap demo_world) 4 = Some ('' ls -a  '' @ [NUL])"
    by (simp add: demo_world_def block_at_def)
  have s: "strip_ws '' ls -a  '' = ''ls -a''" "length (takeWhile isspace '' ls -a  '') = 1"
    by (simp_all add: strip_ws_def isspace_def)
  from trim_white_in_place [of demo_world] c
  have "\<exists>bs bs'. block_at (heap demo_world) 4 = Some bs \<and> length bs' = length bs
         \<and> trim_white demo_world (Ptr 4 0)
             = Ret (Ptr 4 (0 + length (takeWhile isspace '' ls -a  '')))
                 (demo_world\<lparr>heap := (heap demo_world)[4 := Some bs']\<rparr>)
         \<and> cstr ((heap demo_world)[4 := Some bs'])
               (Ptr 4 (0 + length (takeWhile isspace '' ls -a  '')))
             = Some (strip_ws '' ls -a  '')"
    by blast
  then have "\<exists>bs'. trim_white demo_world (Ptr 4 0)
              = Ret (Ptr 4 1) (demo_world\<lparr>heap := (heap demo_world)[4 := Some bs']\<rparr>)
         \<and> length bs' = 9
         \<and> cstr ((heap demo_world)[4 := Some bs']) (Ptr 4 1) = Some ''ls -a''"
    unfolding s b by auto
  moreover from trim_white_in_place [of demo_world]
  have "trim_white demo_world Null = Ret Null demo_world" by blast
  ultimately show ?thesis using c by blast
qed

section \<open>The tokenizer on the heap\<close>

lemma ws_fields_nonempty [simp]: "ws_fields s \<noteq> []"
  by (induction s) auto

lemma runs_Nil [simp]: "runs [] = []"
  by (simp add: runs_def)

lemma runs_delim: "is_delim c \<Longrightarrow> runs (c # cs) = runs cs"
  by (simp add: runs_def)

lemma runs_dropWhile: "runs (dropWhile is_delim s) = runs s"
  by (induction s) (auto simp: runs_delim)

lemma hd_ws_fields: "hd (ws_fields s) = takeWhile (\<lambda>c. \<not> is_delim c) s"
  by (induction s) auto

lemma tl_ws_fields:
  "tl (ws_fields s) = (case dropWhile (\<lambda>c. \<not> is_delim c) s of [] \<Rightarrow> [] | d # r \<Rightarrow> ws_fields r)"
  by (induction s) auto

lemma runs_token:
  assumes "s \<noteq> []" and "\<not> is_delim (hd s)"
  shows "runs s = takeWhile (\<lambda>c. \<not> is_delim c) s # runs (dropWhile (\<lambda>c. \<not> is_delim c) s)"
proof -
  let ?t = "takeWhile (\<lambda>c. \<not> is_delim c) s"
  let ?d = "dropWhile (\<lambda>c. \<not> is_delim c) s"
  have t: "?t \<noteq> []" using assms by (cases s) auto
  have "ws_fields s = hd (ws_fields s) # tl (ws_fields s)" by simp
  then have f: "ws_fields s = ?t # tl (ws_fields s)" by (simp only: hd_ws_fields)
  have r: "filter (\<lambda>f. f \<noteq> []) (tl (ws_fields s)) = runs ?d"
  proof (cases ?d)
    case Nil
    then show ?thesis by (simp only: tl_ws_fields list.case runs_Nil filter.simps)
  next
    case (Cons d r)
    then have "is_delim d" using hd_dropWhile [of "\<lambda>c. \<not> is_delim c" s] by auto
    then have "runs (d # r) = runs r" by (rule runs_delim)
    then show ?thesis by (simp only: tl_ws_fields Cons list.case runs_def)
  qed
  have "runs s = filter (\<lambda>f. f \<noteq> []) (?t # tl (ws_fields s))"
    unfolding runs_def using f by simp
  also have "\<dots> = ?t # filter (\<lambda>f. f \<noteq> []) (tl (ws_fields s))" using t by simp
  finally show ?thesis using r by simp
qed

lemma runs_no_empty: "[] \<notin> set (runs s)"
  by (simp add: runs_def)

lemma runs_all_delim: "\<forall>c\<in>set s. is_delim c \<Longrightarrow> runs s = []"
  by (induction s) (auto simp: runs_delim)

lemma strspn_delims:
  "NUL \<notin> set xs \<Longrightarrow> strspn (xs @ NUL # r) delims = Some (length (takeWhile is_delim xs))"
  by (induction xs) (auto simp: is_delim_def)

lemma strcspn_delims:
  "NUL \<notin> set xs \<Longrightarrow>
     strcspn (xs @ NUL # r) delims = Some (length (takeWhile (\<lambda>c. \<not> is_delim c) xs))"
  by (induction xs) (auto simp: is_delim_def)

lemma drop_add_append:
  assumes "drop i bs = xs @ ys"
  shows "drop (i + length xs) bs = ys"
proof -
  have "drop (i + length xs) bs = drop (length xs) (drop i bs)" by (simp add: add.commute)
  then show ?thesis by (simp only: assms) simp
qed

lemma block_update_same:
  assumes "block_at (heap w) b = Some bs"
  shows "w\<lparr>heap := (heap w)[b := Some bs]\<rparr> = w"
proof -
  from assms have "b < length (heap w)" "heap w ! b = Some bs"
    by (auto simp: block_at_def split: if_splits)
  then have "(heap w)[b := Some bs] = heap w" by (metis list_update_id)
  then show ?thesis by simp
qed

lemma block_at_update:
  "block_at h b = Some bs \<Longrightarrow> block_at (h[b := Some x]) b = Some x"
  by (auto simp: block_at_def split: if_splits)

lemma strtok_spec:
  assumes p: "(if s = Null then strtok_save w else s) = Ptr b i"
    and bs: "block_at (heap w) b = Some bs"
    and d: "drop i bs = rest @ [NUL]"
    and n: "NUL \<notin> set rest"
  shows "(runs rest = [] \<longrightarrow>
            (\<exists>i'. strtok w s delims = Some (Null, w\<lparr>strtok_save := Ptr b i'\<rparr>)))
       \<and> (\<forall>t ts. runs rest = t # ts \<longrightarrow>
            (\<exists>j i' bs' rest'.
               strtok w s delims
                 = Some (Ptr b j, w\<lparr>heap := (heap w)[b := Some bs'], strtok_save := Ptr b i'\<rparr>)
               \<and> length bs' = length bs \<and> drop i' bs' = rest' @ [NUL] \<and> NUL \<notin> set rest'
               \<and> runs rest' = ts
               \<and> cstr ((heap w)[b := Some bs']) (Ptr b j) = Some t))"
    (is "?A \<and> (\<forall>t ts. runs rest = t # ts \<longrightarrow> ?Q t ts)")
proof -
  let ?lead = "takeWhile is_delim rest"
  let ?r1 = "dropWhile is_delim rest"
  let ?j = "i + length ?lead"
  have sp: "strspn (drop i bs) delims = Some (length ?lead)"
    using strspn_delims [OF n, of "[]"] d by simp
  have "drop i bs = ?lead @ (?r1 @ [NUL])" using d by simp
  then have dj: "drop ?j bs = ?r1 @ [NUL]" by (rule drop_add_append)
  have rr: "runs rest = runs ?r1" by (simp add: runs_dropWhile)
  have n1: "NUL \<notin> set ?r1" using n by (auto dest: set_dropWhileD)
  show ?thesis
  proof (cases "?r1 = []")
    case True
    with dj have "bs ! ?j = NUL" using drop_nth_hd [of ?j bs NUL "[]"] by simp
    with p bs sp have "strtok w s delims = Some (Null, w\<lparr>strtok_save := Ptr b ?j\<rparr>)"
      by (simp add: strtok_def)
    moreover have "runs rest = []" using rr True by simp
    ultimately show ?thesis by auto
  next
    case False
    then have h1: "\<not> is_delim (hd ?r1)" by (rule hd_dropWhile)
    let ?tk = "takeWhile (\<lambda>c. \<not> is_delim c) ?r1"
    let ?r2 = "dropWhile (\<lambda>c. \<not> is_delim c) ?r1"
    let ?e = "?j + length ?tk"
    have rt: "runs rest = ?tk # runs ?r2" using rr runs_token [OF False h1] by simp
    from False obtain c cs where r1: "?r1 = c # cs" by (cases ?r1) auto
    with dj have cj: "bs ! ?j = c" using drop_nth_hd [of ?j bs c "cs @ [NUL]"] by simp
    have "c \<in> set ?r1" using r1 by simp
    with n1 have cn: "bs ! ?j \<noteq> NUL" using cj by auto
    have cp: "strcspn (drop ?j bs) delims = Some (length ?tk)"
      using strcspn_delims [OF n1, of "[]"] dj by simp
    have "drop ?j bs = ?tk @ (?r2 @ [NUL])" using dj by simp
    then have de: "drop ?e bs = ?r2 @ [NUL]" by (rule drop_add_append)
    have ntk: "NUL \<notin> set ?tk" using n1 by (auto dest: set_takeWhileD)
    have n2: "NUL \<notin> set ?r2" using n1 by (auto dest: set_dropWhileD)
    have st: "strtok w s delims =
        (if bs ! ?e = NUL then Some (Ptr b ?j, w\<lparr>strtok_save := Ptr b ?e\<rparr>)
         else Some (Ptr b ?j, w\<lparr>heap := (heap w)[b := Some (bs[?e := NUL])],
                                 strtok_save := Ptr b (Suc ?e)\<rparr>))"
      using p bs sp cn cp by (simp add: strtok_def)
    show ?thesis
    proof (cases "?r2 = []")
      case True
      with de have z: "bs ! ?e = NUL" using drop_nth_hd [of ?e bs NUL "[]"] by simp
      have "strtok w s delims = Some (Ptr b ?j, w\<lparr>strtok_save := Ptr b ?e\<rparr>)"
        using st z by simp
      then have a: "strtok w s delims
          = Some (Ptr b ?j, w\<lparr>heap := (heap w)[b := Some bs], strtok_save := Ptr b ?e\<rparr>)"
        using block_update_same [OF bs] by (metis world.update_convs(1) world.surjective world.update_convs(2))
      have b: "drop ?e bs = [] @ [NUL]" using de True by simp
      have "drop ?j bs = ?tk @ NUL # []" using dj True
        by (metis append_Nil2 takeWhile_dropWhile_id)
      then have "cstr (heap w) (Ptr b ?j) = Some ?tk" using cstr_PtrI [OF bs _ ntk] by blast
      then have c: "cstr ((heap w)[b := Some bs]) (Ptr b ?j) = Some ?tk"
        using block_update_same [OF bs] by (metis world.select_convs(1) world.surjective world.update_convs(1))
      have "runs [] = runs ?r2" by (simp only: True)
      with a b c have "?Q ?tk (runs ?r2)"
        by (intro exI [of _ ?j] exI [of _ ?e] exI [of _ bs] exI [of _ "[]"]) simp
      with rt show ?thesis by simp
    next
      case False
      then obtain dl r3 where r2: "?r2 = dl # r3" by (cases ?r2) auto
      then have dd: "is_delim dl"
        using hd_dropWhile [of "\<lambda>c. \<not> is_delim c" ?r1] by auto
      from de r2 have ce: "?e < length bs" "bs ! ?e = dl"
        using drop_nth_hd [of ?e bs dl "r3 @ [NUL]"] by auto
      have "dl \<in> set ?r2" using r2 by simp
      with n2 have "bs ! ?e \<noteq> NUL" using ce by auto
      with st have a: "strtok w s delims
          = Some (Ptr b ?j, w\<lparr>heap := (heap w)[b := Some (bs[?e := NUL])],
                                 strtok_save := Ptr b (Suc ?e)\<rparr>)"
        by simp
      have "drop (Suc ?e) (bs[?e := NUL]) = drop (Suc ?e) bs" by simp
      also have "\<dots> = r3 @ [NUL]" using de r2 drop_Suc_tl [of ?e bs dl "r3 @ [NUL]"] by simp
      finally have b: "drop (Suc ?e) (bs[?e := NUL]) = r3 @ [NUL]" .
      have n3: "NUL \<notin> set r3" using n2 r2 by auto
      have "drop ?j (bs[?e := NUL]) = (drop ?j bs)[length ?tk := NUL]"
        by (simp add: drop_update_swap)
      also have "drop ?j bs = ?tk @ dl # r3 @ [NUL]" using dj r2
        by (metis append_Cons append_assoc takeWhile_dropWhile_id)
      also have "(?tk @ dl # r3 @ [NUL])[length ?tk := NUL] = ?tk @ NUL # r3 @ [NUL]"
        by simp
      finally have "drop ?j (bs[?e := NUL]) = ?tk @ NUL # r3 @ [NUL]" .
      then have c: "cstr ((heap w)[b := Some (bs[?e := NUL])]) (Ptr b ?j) = Some ?tk"
        using cstr_PtrI [OF block_at_update [OF bs] _ ntk] by blast
      have "runs r3 = runs ?r2" using r2 dd by (simp add: runs_delim)
      with a b c n3 have "?Q ?tk (runs ?r2)"
        by (intro exI [of _ ?j] exI [of _ "Suc ?e"] exI [of _ "bs[?e := NUL]"] exI [of _ r3])
          simp
      with rt show ?thesis by simp
    qed
  qed
qed

lemma capacity_gt: "k < capacity k"
  by (induction k) auto

lemma capacity_pow2: "\<exists>j. capacity k = 2 ^ j"
proof (induction k)
  case 0
  have "(64::nat) = 2 ^ 6" by simp
  then show ?case by (metis capacity.simps(1))
next
  case (Suc k)
  then obtain j where j: "capacity k = 2 ^ j" by blast
  then have "2 * capacity k = 2 ^ Suc j" by simp
  with j show ?case by (metis capacity.simps(2))
qed

lemma capacity_le: "capacity k \<le> max 64 (2 * k)"
proof (induction k)
  case 0
  then show ?case by simp
next
  case (Suc k)
  then show ?case using capacity_gt [of k] by auto
qed

lemma capacity_limit:
  assumes "k < max_tokens"
  shows "capacity k \<le> max_tokens"
proof -
  obtain j where j: "capacity k = 2 ^ j" using capacity_pow2 by blast
  have "capacity k < 2 ^ 31"
    using capacity_le [of k] assms by (simp add: max_tokens_def)
  then have "(2::nat) ^ j < 2 ^ 31" using j by simp
  then have "j < 31" by (simp only: power_strict_increasing_iff) 
  then have "j \<le> 30" by simp
  then have "(2::nat) ^ j \<le> 2 ^ 30" by (simp only: power_increasing_iff) 
  then show ?thesis using j by (simp add: max_tokens_def)
qed

lemma wrap32_id: "- (2 ^ 31) \<le> x \<Longrightarrow> x < 2 ^ 31 \<Longrightarrow> wrap32 x = x"
  by (simp add: wrap32_def)

lemma wrap32_overflow: "wrap32 (2 ^ 31) = - (2 ^ 31)"
  by (simp add: wrap32_def)

lemma ptr_array_bytes_small: "0 \<le> n \<Longrightarrow> n < 2 ^ 32 \<Longrightarrow> ptr_array_bytes n = 8 * n"
  by (simp add: ptr_array_bytes_def)

lemma ptr_array_bytes_overflow: "ptr_array_bytes (- (2 ^ 31)) > PTRDIFF_MAX"
  by (simp add: ptr_array_bytes_def PTRDIFF_MAX_def)

lemma realloc_cells_double:
  assumes "length a = n" and "0 < n" and "n < 2 ^ 30"
  shows "realloc_cells a (ptr_array_bytes (wrap32 (int n * 2))) = Some (a @ replicate n None)"
proof -
  have "wrap32 (int n * 2) = int n * 2" using assms by (intro wrap32_id) auto
  moreover have "ptr_array_bytes (int n * 2) = 8 * (int n * 2)"
    using assms by (intro ptr_array_bytes_small) auto
  moreover have "8 * (int n * 2) \<le> PTRDIFF_MAX" using assms by (simp add: PTRDIFF_MAX_def)
  moreover have "nat (8 * (int n * 2) div 8) = 2 * n" by simp
  ultimately show ?thesis using assms by (simp add: realloc_cells_def)
qed

lemma realloc_cells_refused:
  "realloc_cells a (ptr_array_bytes (wrap32 (int (2 ^ 30) * 2))) = None"
proof -
  have "int (2 ^ 30) * 2 = 2 ^ 31" by simp
  then have "wrap32 (int (2 ^ 30) * 2) = - (2 ^ 31)" using wrap32_overflow by simp
  then show ?thesis using ptr_array_bytes_overflow by (simp add: realloc_cells_def)
qed

lemma save_same:
  "strtok_save w = sv \<Longrightarrow>
     w\<lparr>heap := h, strtok_save := sv, err_out := e\<rparr> = w\<lparr>heap := h, err_out := e\<rparr>"
  by (cases w) auto

lemma parse_loop_Null: "parse_loop w tokens bufsize position Null = Ret (tokens, position) w"
  by (subst parse_loop.simps) simp

lemma store_token:
  assumes "length pre = k" and "k < c"
  shows "(pre @ replicate (c - k) None)[k := Some p] = (pre @ [Some p]) @ replicate (c - Suc k) None"
proof -
  from assms(2) obtain m where m: "c - k = Suc m" "c - Suc k = m"
    by (metis Suc_diff_Suc)
  with assms(1) show ?thesis by (simp add: list_update_append)
qed

lemma parse_loop_step:
  assumes tk: "cstr (heap w) token = Some tk"
    and k: "k < max_tokens"
    and pre: "length pre = k"
  shows "parse_loop w (pre @ replicate (capacity k - k) None) (int (capacity k)) (int k) token =
     (if Suc k = max_tokens
      then Exit 1 (w\<lparr>heap := heap w @ [Some (tk @ [NUL])], err_out := err_out w @ alloc_error\<rparr>)
      else
        (case strtok (w\<lparr>heap := heap w @ [Some (tk @ [NUL])]\<rparr>) Null delims of
           None \<Rightarrow> Undefined
         | Some (token', w2) \<Rightarrow>
             parse_loop w2
               ((pre @ [Some (Ptr (length (heap w)) 0)])
                  @ replicate (capacity (Suc k) - Suc k) None)
               (int (capacity (Suc k))) (int (Suc k)) token'))"
proof -
  let ?p = "Ptr (length (heap w)) 0"
  let ?w1 = "w\<lparr>heap := heap w @ [Some (tk @ [NUL])]\<rparr>"
  let ?tokens = "pre @ replicate (capacity k - k) None"
  let ?tokens1 = "(pre @ [Some ?p]) @ replicate (capacity k - Suc k) None"
  have nn: "token \<noteq> Null" using tk by auto
  have sd: "strdup w token = Some (?p, ?w1)" using tk by (rule strdup_Some)
  have inb: "0 \<le> int k \<and> nat (int k) < length ?tokens"
    using pre capacity_gt [of k] by simp
  have st: "?tokens[nat (int k) := Some ?p] = ?tokens1"
    using store_token [OF pre capacity_gt] by simp
  have pos: "wrap32 (int k + 1) = int (Suc k)"
    using k by (simp add: wrap32_id max_tokens_def)
  have unfold: "parse_loop w ?tokens (int (capacity k)) (int k) token =
      (if int (Suc k) \<ge> int (capacity k) then
         (case realloc_cells ?tokens1 (ptr_array_bytes (wrap32 (int (capacity k) * 2))) of
            None \<Rightarrow> Exit 1 (?w1\<lparr>err_out := err_out ?w1 @ alloc_error\<rparr>)
          | Some tokens2 \<Rightarrow>
              (case strtok ?w1 Null delims of
                 None \<Rightarrow> Undefined
               | Some (token', w2) \<Rightarrow>
                   parse_loop w2 tokens2 (wrap32 (int (capacity k) * 2)) (int (Suc k)) token'))
       else
         (case strtok ?w1 Null delims of
            None \<Rightarrow> Undefined
          | Some (token', w2) \<Rightarrow>
              parse_loop w2 ?tokens1 (int (capacity k)) (int (Suc k)) token'))"
    by (subst parse_loop.simps) (simp only: nn sd inb st pos Let_def if_False option.case prod.case
        not_not if_True simp_thms)
  show ?thesis
  proof (cases "Suc k \<ge> capacity k")
    case True
    with capacity_gt [of k] have eq: "capacity k = Suc k" by simp
    then have t1: "?tokens1 = pre @ [Some ?p]" by simp
    show ?thesis
    proof (cases "Suc k = max_tokens")
      case True
      then have "int (capacity k) * 2 = int (2 ^ 30) * 2" using eq by (simp add: max_tokens_def)
      then have "realloc_cells ?tokens1 (ptr_array_bytes (wrap32 (int (capacity k) * 2))) = None"
        using realloc_cells_refused by simp
      with True eq show ?thesis unfolding unfold by simp
    next
      case False
      with k have lt: "Suc k < 2 ^ 30" by (simp add: max_tokens_def)
      have len: "length (pre @ [Some ?p]) = Suc k" using pre by simp
      have ra: "realloc_cells ?tokens1 (ptr_array_bytes (wrap32 (int (capacity k) * 2)))
          = Some ((pre @ [Some ?p]) @ replicate (Suc k) None)"
        using realloc_cells_double [OF len _ lt] eq t1 by simp
      have w: "wrap32 (int (capacity k) * 2) = int (capacity (Suc k))"
        using eq lt by (simp add: wrap32_id)
      have c: "capacity (Suc k) - Suc k = Suc k" using eq by simp
      have ge: "int (capacity k) \<le> int (Suc k)" using eq by simp
      have "parse_loop w ?tokens (int (capacity k)) (int k) token =
          (case strtok ?w1 Null delims of
             None \<Rightarrow> Undefined
           | Some (token', w2) \<Rightarrow>
               parse_loop w2 ((pre @ [Some ?p]) @ replicate (Suc k) None)
                 (int (capacity (Suc k))) (int (Suc k)) token')"
        by (simp only: unfold ge ra [unfolded w] w if_True option.case)
      with False show ?thesis by (simp only: c if_False)
    qed
  next
    case False
    then have lt: "Suc k < capacity k" by simp
    with capacity_limit [OF k] have ne: "Suc k \<noteq> max_tokens" by simp
    have c: "capacity (Suc k) = capacity k" using lt by simp
    from lt ne show ?thesis unfolding unfold c by simp
  qed
qed

lemma token_cells_Suc: "token_cells l (Suc m) = Some (Ptr l 0) # token_cells (Suc l) m"
  by (simp add: token_cells_def map_upt_Suc del: upt_Suc)

lemma token_cells_0 [simp]: "token_cells l 0 = []"
  by (simp add: token_cells_def)

lemma parse_loop_spec:
  assumes "runs rest = ts"
    and "cstr (heap w) token = Some tk"
    and "strtok_save w = Ptr b i"
    and "block_at (heap w) b = Some bs"
    and "drop i bs = rest @ [NUL]"
    and "NUL \<notin> set rest"
    and "k < max_tokens"
    and "length pre = k"
  shows "\<exists>bs' sv. length bs' = length bs \<and>
     parse_loop w (pre @ replicate (capacity k - k) None) (int (capacity k)) (int k) token =
       (if k + Suc (length ts) < max_tokens
        then Ret ((pre @ token_cells (length (heap w)) (Suc (length ts)))
                    @ replicate (capacity (k + Suc (length ts)) - (k + Suc (length ts))) None,
                  int (k + Suc (length ts)))
               (w\<lparr>heap := (heap w)[b := Some bs'] @ token_blocks (tk # ts),
                  strtok_save := sv\<rparr>)
        else Exit 1
               (w\<lparr>heap := (heap w)[b := Some bs']
                           @ token_blocks (take (max_tokens - k) (tk # ts)),
                  strtok_save := sv,
                  err_out := err_out w @ alloc_error\<rparr>))"
  using assms
proof (induction ts arbitrary: w token tk i bs rest k pre)
  case Nil
  let ?w1 = "w\<lparr>heap := heap w @ [Some (tk @ [NUL])]\<rparr>"
  have blen: "b < length (heap w)" and hb: "heap w ! b = Some bs"
    using Nil.prems(4) by (auto simp: block_at_def split: if_splits)
  have same: "(heap w)[b := Some bs] = heap w" using hb blen by (metis list_update_id)
  note step = parse_loop_step [OF Nil.prems(2) Nil.prems(7) Nil.prems(8)]
  show ?case
  proof (cases "Suc k = max_tokens")
    case True
    then have one: "max_tokens - k = Suc 0" by arith
    from True have "parse_loop w (pre @ replicate (capacity k - k) None) (int (capacity k)) (int k) token
        = Exit 1 (w\<lparr>heap := (heap w)[b := Some bs] @ token_blocks (take (max_tokens - k) [tk]),
                     strtok_save := Ptr b i, err_out := err_out w @ alloc_error\<rparr>)"
      using step by (simp add: same token_blocks_def one save_same [OF Nil.prems(3)])
    with True show ?thesis by (intro exI [of _ bs] exI [of _ "Ptr b i"]) simp
  next
    case False
    with Nil.prems(7) have lt: "k + Suc 0 < max_tokens" by simp
    have sv1: "(if Null = Null then strtok_save ?w1 else Null) = Ptr b i"
      using Nil.prems(3) by simp
    have b1: "block_at (heap ?w1) b = Some bs"
      using blen hb by (simp add: block_at_def nth_append)
    from strtok_spec [OF sv1 b1 Nil.prems(5) Nil.prems(6)] Nil.prems(1)
    obtain i' where st: "strtok ?w1 Null delims = Some (Null, ?w1\<lparr>strtok_save := Ptr b i'\<rparr>)"
      by auto
    have "parse_loop w (pre @ replicate (capacity k - k) None) (int (capacity k)) (int k) token
        = Ret ((pre @ token_cells (length (heap w)) (Suc 0))
                 @ replicate (capacity (k + Suc 0) - (k + Suc 0)) None, int (k + Suc 0))
            (w\<lparr>heap := (heap w)[b := Some bs] @ token_blocks [tk], strtok_save := Ptr b i'\<rparr>)"
      using step False st
      by (simp add: parse_loop_Null same token_blocks_def token_cells_Suc)
    with lt show ?thesis by (intro exI [of _ bs] exI [of _ "Ptr b i'"]) simp
  qed
next
  case (Cons t ts)
  let ?w1 = "w\<lparr>heap := heap w @ [Some (tk @ [NUL])]\<rparr>"
  have blen: "b < length (heap w)" and hb: "heap w ! b = Some bs"
    using Cons.prems(4) by (auto simp: block_at_def split: if_splits)
  have same: "(heap w)[b := Some bs] = heap w" using hb blen by (metis list_update_id)
  note step = parse_loop_step [OF Cons.prems(2) Cons.prems(7) Cons.prems(8)]
  show ?case
  proof (cases "Suc k = max_tokens")
    case True
    then have one: "max_tokens - k = Suc 0" by arith
    from True have "parse_loop w (pre @ replicate (capacity k - k) None) (int (capacity k)) (int k) token
        = Exit 1 (w\<lparr>heap := (heap w)[b := Some bs]
                              @ token_blocks (take (max_tokens - k) (tk # t # ts)),
                     strtok_save := Ptr b i, err_out := err_out w @ alloc_error\<rparr>)"
      using step by (simp add: same token_blocks_def one save_same [OF Cons.prems(3)])
    with True show ?thesis by (intro exI [of _ bs] exI [of _ "Ptr b i"]) simp
  next
    case False
    with Cons.prems(7) have lt: "Suc k < max_tokens" by simp
    have sv1: "(if Null = Null then strtok_save ?w1 else Null) = Ptr b i"
      using Cons.prems(3) by simp
    have b1: "block_at (heap ?w1) b = Some bs"
      using blen hb by (simp add: block_at_def nth_append)
    from strtok_spec [OF sv1 b1 Cons.prems(5) Cons.prems(6)] Cons.prems(1)
    obtain j i1 bs1 rest1 where
      st: "strtok ?w1 Null delims
            = Some (Ptr b j, ?w1\<lparr>heap := (heap ?w1)[b := Some bs1], strtok_save := Ptr b i1\<rparr>)"
      and l1: "length bs1 = length bs" and d1: "drop i1 bs1 = rest1 @ [NUL]"
      and n1: "NUL \<notin> set rest1" and r1: "runs rest1 = ts"
      and c1: "cstr ((heap ?w1)[b := Some bs1]) (Ptr b j) = Some t"
      by blast
    let ?w2 = "?w1\<lparr>heap := (heap ?w1)[b := Some bs1], strtok_save := Ptr b i1\<rparr>"
    have h2: "heap ?w2 = (heap w)[b := Some bs1] @ [Some (tk @ [NUL])]"
      using blen by (simp add: list_update_append1)
    have c2: "cstr (heap ?w2) (Ptr b j) = Some t" using c1 by simp
    have s2: "strtok_save ?w2 = Ptr b i1" by simp
    have b2: "block_at (heap ?w2) b = Some bs1"
      using blen by (simp add: block_at_def nth_append)
    have len2: "length (pre @ [Some (Ptr (length (heap w)) 0)]) = Suc k"
      using Cons.prems(8) by simp
    from Cons.IH [OF r1 c2 s2 b2 d1 n1 lt len2]
    obtain bs' sv where l': "length bs' = length bs1"
      and ih: "parse_loop ?w2
          ((pre @ [Some (Ptr (length (heap w)) 0)]) @ replicate (capacity (Suc k) - Suc k) None)
          (int (capacity (Suc k))) (int (Suc k)) (Ptr b j) =
        (if Suc k + Suc (length ts) < max_tokens
         then Ret (((pre @ [Some (Ptr (length (heap w)) 0)])
                       @ token_cells (length (heap ?w2)) (Suc (length ts)))
                     @ replicate (capacity (Suc k + Suc (length ts)) - (Suc k + Suc (length ts))) None,
                   int (Suc k + Suc (length ts)))
                (?w2\<lparr>heap := (heap ?w2)[b := Some bs'] @ token_blocks (t # ts),
                   strtok_save := sv\<rparr>)
         else Exit 1
                (?w2\<lparr>heap := (heap ?w2)[b := Some bs']
                            @ token_blocks (take (max_tokens - Suc k) (t # ts)),
                   strtok_save := sv,
                   err_out := err_out ?w2 @ alloc_error\<rparr>))"
      by blast
    have hf: "(heap ?w2)[b := Some bs'] @ token_blocks xs
        = (heap w)[b := Some bs'] @ token_blocks (tk # xs)" for xs
      using blen by (simp add: list_update_append1 token_blocks_def)
    have cells: "(pre @ [Some (Ptr (length (heap w)) 0)])
          @ token_cells (length (heap ?w2)) (Suc (length ts))
        = pre @ token_cells (length (heap w)) (Suc (length (t # ts)))"
      by (simp add: token_cells_Suc)
    have tk': "take (max_tokens - k) (tk # t # ts) = tk # take (max_tokens - Suc k) (t # ts)"
      using lt by (metis Suc_diff_Suc Suc_lessD take_Suc_Cons)
    have "parse_loop w (pre @ replicate (capacity k - k) None) (int (capacity k)) (int k) token
        = parse_loop ?w2
          ((pre @ [Some (Ptr (length (heap w)) 0)]) @ replicate (capacity (Suc k) - Suc k) None)
          (int (capacity (Suc k))) (int (Suc k)) (Ptr b j)"
      using step False st by simp
    also note ih
    finally have "parse_loop w (pre @ replicate (capacity k - k) None) (int (capacity k)) (int k) token =
       (if k + Suc (length (t # ts)) < max_tokens
        then Ret ((pre @ token_cells (length (heap w)) (Suc (length (t # ts))))
                    @ replicate (capacity (k + Suc (length (t # ts))) - (k + Suc (length (t # ts)))) None,
                  int (k + Suc (length (t # ts))))
               (w\<lparr>heap := (heap w)[b := Some bs'] @ token_blocks (tk # t # ts),
                  strtok_save := sv\<rparr>)
        else Exit 1
               (w\<lparr>heap := (heap w)[b := Some bs']
                           @ token_blocks (take (max_tokens - k) (tk # t # ts)),
                  strtok_save := sv,
                  err_out := err_out w @ alloc_error\<rparr>))"
      unfolding hf cells tk' by simp
    with l' l1 show ?thesis by (intro exI [of _ bs'] exI [of _ sv]) simp
  qed
qed

lemma malloc_cells_64: "malloc_cells (ptr_array_bytes 64) = Some (replicate 64 None)"
  by (simp add: malloc_cells_def ptr_array_bytes_def PTRDIFF_MAX_def)

lemma cmd_parse_spec:
  assumes "cstr (heap w) line = Some s"
  shows "\<exists>bs' sv. cmd_parse w line =
     (if length (runs s) < max_tokens
      then Ret (token_cells (Suc (length (heap w))) (length (runs s))
                  @ Some Null # replicate (capacity (length (runs s)) - Suc (length (runs s))) None)
             (w\<lparr>heap := heap w @ None # token_blocks (runs s), strtok_save := sv\<rparr>)
      else Exit 1
             (w\<lparr>heap := heap w @ Some bs' # token_blocks (take max_tokens (runs s)),
                strtok_save := sv,
                err_out := err_out w @ alloc_error\<rparr>))"
proof -
  note capacity.simps [simp del]
  let ?L = "length (heap w)"
  let ?w1 = "w\<lparr>heap := heap w @ [Some (s @ [NUL])]\<rparr>"
  have n: "NUL \<notin> set s" using assms by (rule cstr_no_NUL)
  have sd: "strdup w line = Some (Ptr ?L 0, ?w1)" using assms by (rule strdup_Some)
  have p1: "(if Ptr ?L 0 = Null then strtok_save ?w1 else Ptr ?L 0) = Ptr ?L 0" by simp
  have b1: "block_at (heap ?w1) ?L = Some (s @ [NUL])" by (simp add: block_at_def)
  have d1: "drop 0 (s @ [NUL]) = s @ [NUL]" by simp
  note tok = strtok_spec [OF p1 b1 d1 n]
  have unfold: "cmd_parse w line =
      (case strtok ?w1 (Ptr ?L 0) delims of
         None \<Rightarrow> Undefined
       | Some (token, w2) \<Rightarrow>
           (case parse_loop w2 (replicate 64 None) 64 0 token of
              Undefined \<Rightarrow> Undefined
            | Exit c w3 \<Rightarrow> Exit c w3
            | Ret (tokens', position) w3 \<Rightarrow>
                if \<not> (0 \<le> position \<and> nat position < length tokens') then Undefined
                else
                  (case free w3 (Ptr ?L 0) of
                     None \<Rightarrow> Undefined
                   | Some w4 \<Rightarrow> Ret (tokens'[nat position := Some Null]) w4)))"
    by (simp add: cmd_parse_def malloc_cells_64 sd)
  show ?thesis
  proof (cases "runs s")
    case Nil
    with tok obtain i' where
      st: "strtok ?w1 (Ptr ?L 0) delims = Some (Null, ?w1\<lparr>strtok_save := Ptr ?L i'\<rparr>)"
      by auto
    have fr: "free (?w1\<lparr>strtok_save := Ptr ?L i'\<rparr>) (Ptr ?L 0)
        = Some (w\<lparr>heap := heap w @ [None], strtok_save := Ptr ?L i'\<rparr>)"
      by (simp add: free_def block_at_def)
    have "replicate 64 None = None # replicate 63 (None :: ptr option)"
      by (simp add: numeral_eq_Suc)
    then have first_cell: "(replicate 64 None)[0 := Some Null] = Some Null # replicate 63 None"
      by simp
    have "cmd_parse w line
        = Ret (Some Null # replicate 63 None)
            (w\<lparr>heap := heap w @ [None], strtok_save := Ptr ?L i'\<rparr>)"
      unfolding unfold st by (simp add: parse_loop_Null fr first_cell)
    with Nil show ?thesis
      by (intro exI [of _ "[]"] exI [of _ "Ptr ?L i'"])
        (simp add: max_tokens_def token_blocks_def capacity.simps)
  next
    case (Cons t ts)
    with tok obtain j i1 bs1 rest1 where
      st: "strtok ?w1 (Ptr ?L 0) delims
            = Some (Ptr ?L j, ?w1\<lparr>heap := (heap ?w1)[?L := Some bs1], strtok_save := Ptr ?L i1\<rparr>)"
      and d1: "drop i1 bs1 = rest1 @ [NUL]"
      and n1: "NUL \<notin> set rest1" and r1: "runs rest1 = ts"
      and c1: "cstr ((heap ?w1)[?L := Some bs1]) (Ptr ?L j) = Some t"
      by blast
    let ?w2 = "?w1\<lparr>heap := (heap ?w1)[?L := Some bs1], strtok_save := Ptr ?L i1\<rparr>"
    let ?n = "Suc (length ts)"
    have h2: "heap ?w2 = heap w @ [Some bs1]" by simp
    have c2: "cstr (heap ?w2) (Ptr ?L j) = Some t" using c1 by simp
    have s2: "strtok_save ?w2 = Ptr ?L i1" by simp
    have b2: "block_at (heap ?w2) ?L = Some bs1" by (simp add: block_at_def)
    have k0: "0 < max_tokens" by (simp add: max_tokens_def)
    have l0: "length ([] :: cells) = 0" by simp
    have args: "([] :: cells) @ replicate (capacity 0 - 0) None = replicate 64 None"
      "int (capacity 0) = 64" "int 0 = 0"
      by (simp_all add: capacity.simps)
    from parse_loop_spec [OF r1 c2 s2 b2 d1 n1 k0 l0, unfolded args]
    obtain bs' sv where
      pl: "parse_loop ?w2 (replicate 64 None) 64 0 (Ptr ?L j) =
        (if 0 + ?n < max_tokens
         then Ret (([] @ token_cells (length (heap ?w2)) ?n)
                     @ replicate (capacity (0 + ?n) - (0 + ?n)) None, int (0 + ?n))
                (?w2\<lparr>heap := (heap ?w2)[?L := Some bs'] @ token_blocks (t # ts),
                   strtok_save := sv\<rparr>)
         else Exit 1
                (?w2\<lparr>heap := (heap ?w2)[?L := Some bs']
                            @ token_blocks (take (max_tokens - 0) (t # ts)),
                   strtok_save := sv,
                   err_out := err_out ?w2 @ alloc_error\<rparr>))"
      by blast
    have hf: "(heap ?w2)[?L := Some bs'] @ xs = heap w @ Some bs' # xs" for xs
      by simp
    show ?thesis
    proof (cases "?n < max_tokens")
      case True
      let ?w3 = "w\<lparr>heap := heap w @ Some bs' # token_blocks (t # ts), strtok_save := sv\<rparr>"
      let ?cells = "token_cells (Suc ?L) ?n"
      have lc: "length ?cells = ?n" by (simp add: token_cells_def)
      have pl': "parse_loop ?w2 (replicate 64 None) 64 0 (Ptr ?L j)
          = Ret (?cells @ replicate (capacity ?n - ?n) None, int ?n) ?w3"
        using pl True by (simp only: hf) simp
      have fr: "free ?w3 (Ptr ?L 0)
          = Some (w\<lparr>heap := heap w @ None # token_blocks (t # ts), strtok_save := sv\<rparr>)"
        by (simp add: free_def block_at_def nth_append list_update_append)
      have inb: "0 \<le> int ?n \<and> nat (int ?n) < length (?cells @ replicate (capacity ?n - ?n) None)"
        using capacity_gt [of ?n] lc by simp
      have stt: "(?cells @ replicate (capacity ?n - ?n) None)[nat (int ?n) := Some Null]
          = ?cells @ Some Null # replicate (capacity ?n - Suc ?n) None"
        using store_token [OF lc capacity_gt, of "Null"]
        by (simp only: nat_int append_assoc append_Cons append_Nil)
      have "cmd_parse w line
          = Ret (?cells @ Some Null # replicate (capacity ?n - Suc ?n) None)
              (w\<lparr>heap := heap w @ None # token_blocks (t # ts), strtok_save := sv\<rparr>)"
        unfolding unfold st option.case prod.case pl' res.case
        by (simp only: inb stt fr not_not simp_thms if_False option.case)
      with True Cons show ?thesis
        by (intro exI [of _ bs'] exI [of _ sv]) simp
    next
      case False
      have "parse_loop ?w2 (replicate 64 None) 64 0 (Ptr ?L j)
          = Exit 1 (w\<lparr>heap := heap w @ Some bs' # token_blocks (take max_tokens (t # ts)),
                       strtok_save := sv, err_out := err_out w @ alloc_error\<rparr>)"
        using pl False by (simp only: hf) simp
      then have "cmd_parse w line
          = Exit 1 (w\<lparr>heap := heap w @ Some bs' # token_blocks (take max_tokens (t # ts)),
                       strtok_save := sv, err_out := err_out w @ alloc_error\<rparr>)"
        unfolding unfold st option.case prod.case by (simp only: res.case)
      with False Cons show ?thesis
        by (intro exI [of _ bs'] exI [of _ sv]) simp
    qed
  qed
qed

lemma runs_chars:
  "t \<in> set (runs s) \<Longrightarrow> c \<in> set t \<Longrightarrow> c \<in> set s \<and> \<not> is_delim c"
proof (induction "length s" arbitrary: s rule: less_induct)
  case less
  show ?case
  proof (cases s)
    case Nil
    with less.prems show ?thesis by simp
  next
    case (Cons a cs)
    show ?thesis
    proof (cases "is_delim a")
      case True
      with Cons less.prems have "t \<in> set (runs cs)" by (simp add: runs_delim)
      with less.hyps [of cs] less.prems(2) Cons show ?thesis by auto
    next
      case False
      let ?tk = "takeWhile (\<lambda>c. \<not> is_delim c) s"
      let ?r = "dropWhile (\<lambda>c. \<not> is_delim c) s"
      have ne: "s \<noteq> []" and hd: "\<not> is_delim (hd s)" using Cons False by auto
      from runs_token [OF ne hd] less.prems(1) have "t = ?tk \<or> t \<in> set (runs ?r)" by auto
      then show ?thesis
      proof
        assume "t = ?tk"
        with less.prems(2) show ?thesis by (auto dest: set_takeWhileD)
      next
        assume t: "t \<in> set (runs ?r)"
        have "?tk \<noteq> []" using Cons False by simp
        then have "length ?r < length s"
          by (metis append_eq_conv_conj length_drop diff_less length_greater_0_conv
              takeWhile_dropWhile_id ne)
        from less.hyps [OF this t less.prems(2)] show ?thesis by (auto dest: set_dropWhileD)
      qed
    qed
  qed
qed

lemma argv_strings_cells:
  "\<forall>t\<in>set ts. NUL \<notin> set t \<Longrightarrow>
     argv_strings (h @ token_blocks ts) (token_cells (length h) (length ts) @ Some Null # junk)
       = Some ts"
proof (induction ts arbitrary: h)
  case Nil
  then show ?case by simp
next
  case (Cons t ts)
  have c: "cstr (h @ token_blocks (t # ts)) (Ptr (length h) 0) = Some t"
  proof (rule cstr_PtrI [where bs = "t @ [NUL]" and r = "[]"])
    show "block_at (h @ token_blocks (t # ts)) (length h) = Some (t @ [NUL])"
      by (simp add: block_at_def token_blocks_def)
    show "drop 0 (t @ [NUL]) = t @ [NUL]" by simp
    show "NUL \<notin> set t" using Cons.prems by simp
  qed
  have "h @ token_blocks (t # ts) = (h @ [Some (t @ [NUL])]) @ token_blocks ts"
    by (simp add: token_blocks_def)
  moreover have "argv_strings ((h @ [Some (t @ [NUL])]) @ token_blocks ts)
      (token_cells (length (h @ [Some (t @ [NUL])])) (length ts) @ Some Null # junk) = Some ts"
    using Cons.prems by (intro Cons.IH) simp
  ultimately have "argv_strings (h @ token_blocks (t # ts))
      (token_cells (Suc (length h)) (length ts) @ Some Null # junk) = Some ts"
    by simp
  with c show ?case by (simp add: token_cells_Suc)
qed

lemma cell_terminator:
  "cell (token_cells l n @ Some Null # junk) n = Some Null"
  by (simp add: cell_def token_cells_def nth_append)

lemma cstr_extend: "cstr h p = Some s \<Longrightarrow> cstr (h @ ext) p = Some s"
  by (auto simp: cstr_def bytes_at_def block_at_def nth_append
      split: ptr.splits option.splits if_splits)

lemma concat_ws_fields: "concat (ws_fields s) = filter (\<lambda>c. \<not> is_delim c) s"
proof (induction s)
  case Nil
  then show ?case by simp
next
  case (Cons c s)
  have "concat (hd (ws_fields s) # tl (ws_fields s)) = concat (ws_fields s)" by simp
  then have "hd (ws_fields s) @ concat (tl (ws_fields s)) = concat (ws_fields s)"
    by (simp only: concat.simps)
  with Cons show ?case by simp
qed

lemma concat_runs: "concat (runs s) = filter (\<lambda>c. \<not> is_delim c) s"
proof -
  have "concat (filter (\<lambda>f. f \<noteq> []) xs) = concat xs" for xs :: "string list"
    by (induction xs) auto
  then show ?thesis by (simp add: runs_def concat_ws_fields)
qed

lemma big_line_Suc: "big_line (Suc n) = ''a '' @ big_line n"
  by (simp add: big_line_def)

lemma big_line_runs: "runs (big_line n) = replicate n ''a''"
proof (induction n)
  case 0
  then show ?case by (simp add: big_line_def)
next
  case (Suc n)
  have a: "\<not> is_delim CHR ''a''" and sp: "is_delim CHR '' ''"
    by (simp_all add: is_delim_def delims_def)
  have "runs (big_line (Suc n)) = runs (CHR ''a'' # CHR '' '' # big_line n)"
    by (simp add: big_line_Suc)
  also have "\<dots> = ''a'' # runs (CHR '' '' # big_line n)"
    using runs_token [of "CHR ''a'' # CHR '' '' # big_line n"] a sp by simp
  also have "\<dots> = ''a'' # runs (big_line n)" using sp by (simp add: runs_delim)
  finally show ?case using Suc by simp
qed

lemma big_line_no_NUL: "NUL \<notin> set (big_line n)"
  by (induction n) (simp_all add: big_line_def NUL_def)

lemma takeWhile_prefix:
  "take (length (takeWhile P xs)) xs = takeWhile P xs"
  by (metis append_eq_conv_conj takeWhile_dropWhile_id)

lemma dropWhile_suffix:
  "drop (length (takeWhile P xs)) xs = dropWhile P xs"
  by (metis append_eq_conv_conj takeWhile_dropWhile_id)

lemma tokenization_runs: "tokenization s (runs s)"
proof (induction "length s" arbitrary: s rule: less_induct)
  case less
  let ?r = "dropWhile is_delim s"
  have rr: "runs s = runs ?r" by (simp add: runs_dropWhile)
  show ?case
  proof (cases "?r = []")
    case True
    then have "\<forall>c\<in>set s. is_delim c" by (simp add: dropWhile_eq_Nil_conv)
    moreover have "runs s = []" using rr True by (simp only: runs_Nil)
    ultimately show ?thesis by simp
  next
    case False
    then have hd: "\<not> is_delim (hd ?r)" by (rule hd_dropWhile)
    let ?t = "takeWhile (\<lambda>c. \<not> is_delim c) ?r"
    let ?r' = "dropWhile (\<lambda>c. \<not> is_delim c) ?r"
    have rt: "runs s = ?t # runs ?r'" using rr runs_token [OF False hd] by simp
    have t1: "?t \<noteq> []" using False hd by (cases ?r) auto
    have t2: "\<forall>c\<in>set ?t. \<not> is_delim c" by (auto dest: set_takeWhileD)
    have t3: "take (length ?t) ?r = ?t" by (rule takeWhile_prefix)
    have t4: "drop (length ?t) ?r = ?r'" by (rule dropWhile_suffix)
    have t5: "?r' = [] \<or> is_delim (hd ?r')"
      using hd_dropWhile [of "\<lambda>c. \<not> is_delim c" ?r] by auto
    have "length ?r' < length ?r" using t1 t4
      by (metis diff_less length_drop length_greater_0_conv False)
    moreover have "length ?r \<le> length s" by (rule length_dropWhile_le)
    ultimately have ih: "tokenization ?r' (runs ?r')" by (intro less.hyps) simp
    have "tokenization s (?t # runs ?r') =
        (?t \<noteq> [] \<and> (\<forall>c\<in>set ?t. \<not> is_delim c) \<and> take (length ?t) ?r = ?t
         \<and> (drop (length ?t) ?r = [] \<or> is_delim (hd (drop (length ?t) ?r)))
         \<and> tokenization (drop (length ?t) ?r) (runs ?r'))"
      by (simp only: tokenization.simps Let_def)
    then have "tokenization s (?t # runs ?r')"
      unfolding t4 using t1 t2 t3 t5 ih by blast
    then show ?thesis by (simp only: rt)
  qed
qed

lemma tokenization_unique: "tokenization s ts \<Longrightarrow> ts = runs s"
proof (induction ts arbitrary: s)
  case Nil
  then show ?case by (simp add: runs_all_delim)
next
  case (Cons t ts)
  let ?r = "dropWhile is_delim s"
  let ?r' = "drop (length t) ?r"
  from Cons.prems have t1: "t \<noteq> []" and t2: "\<forall>c\<in>set t. \<not> is_delim c"
    and t3: "take (length t) ?r = t" and t5: "?r' = [] \<or> is_delim (hd ?r')"
    and t6: "tokenization ?r' ts"
    by (simp_all add: Let_def)
  have r: "?r = t @ ?r'" using t3 by (metis append_take_drop_id)
  have tw: "takeWhile (\<lambda>c. \<not> is_delim c) (t @ ?r') = t"
    using t2 t5 by (cases ?r') (auto simp: takeWhile_append2)
  have dw: "dropWhile (\<lambda>c. \<not> is_delim c) (t @ ?r') = ?r'"
    using t2 t5 by (cases ?r') (auto simp: dropWhile_append2)
  have ne: "t @ ?r' \<noteq> []" and hd: "\<not> is_delim (hd (t @ ?r'))"
    using t1 t2 by (cases t; simp)+
  have "runs s = runs ?r" by (simp add: runs_dropWhile)
  also have "\<dots> = runs (t @ ?r')" by (rule arg_cong [OF r])
  also have "\<dots> = t # runs ?r'" using runs_token [OF ne hd] tw dw by simp
  also have "runs ?r' = ts" using Cons.IH [OF t6] by simp
  finally show ?case by simp
qed

text \<open>
  What the code does for a line with fewer than \<open>2 ^ 30\<close> tokens: \<^verbatim>\<open>cmd_parse\<close> returns an
  array whose cells point, in order, to copies of the maximal runs of characters other than
  space, tab, carriage return and newline, followed by a null cell.  No token is empty, no
  token holds a separator, and the tokens together are the characters of the line that are
  not separators; a line of separators only, the empty line included, has no token.
\<close>

lemma cmd_parse_tokens:
  assumes "cstr (heap w) line = Some s" and "length (runs s) < 2 ^ 30"
  shows "\<exists>tokens w'. cmd_parse w line = Ret tokens w'
       \<and> argv_strings (heap w') tokens = Some (runs s)
       \<and> cell tokens (length (runs s)) = Some Null
       \<and> tokenization s (runs s)
       \<and> [] \<notin> set (runs s)
       \<and> (\<forall>t\<in>set (runs s). \<forall>c\<in>set t. \<not> is_delim c)
       \<and> concat (runs s) = filter (\<lambda>c. \<not> is_delim c) s
       \<and> ((\<forall>c\<in>set s. is_delim c) \<longrightarrow> runs s = [])"
proof -
  let ?n = "length (runs s)"
  let ?junk = "replicate (capacity ?n - Suc ?n) None"
  let ?tokens = "token_cells (Suc (length (heap w))) ?n @ Some Null # ?junk"
  from cmd_parse_spec [OF assms(1)] assms(2) obtain sv where
    r: "cmd_parse w line
          = Ret ?tokens (w\<lparr>heap := heap w @ None # token_blocks (runs s), strtok_save := sv\<rparr>)"
    by (auto simp: max_tokens_def)
  let ?w' = "w\<lparr>heap := heap w @ None # token_blocks (runs s), strtok_save := sv\<rparr>"
  have nul: "\<forall>t\<in>set (runs s). NUL \<notin> set t"
    using runs_chars [of _ s] cstr_no_NUL [OF assms(1)] by blast
  have "argv_strings ((heap w @ [None]) @ token_blocks (runs s))
      (token_cells (length (heap w @ [None])) ?n @ Some Null # ?junk) = Some (runs s)"
    using nul by (rule argv_strings_cells)
  then have a: "argv_strings (heap ?w') ?tokens = Some (runs s)" by simp
  have b: "cell ?tokens ?n = Some Null" by (rule cell_terminator)
  have c: "\<forall>t\<in>set (runs s). \<forall>c\<in>set t. \<not> is_delim c"
    using runs_chars [of _ s] by blast
  from r a b c tokenization_runs [of s] runs_no_empty [of s] concat_runs [of s]
    runs_all_delim [of s]
  show ?thesis by blast
qed

lemma cmd_parse_tokens_examples:
  "cstr (heap demo_world) (Ptr 4 0) = Some '' ls -a  ''
   \<and> (\<exists>tokens w'. cmd_parse demo_world (Ptr 4 0) = Ret tokens w'
         \<and> argv_strings (heap w') tokens = Some [''ls'', ''-a'']
         \<and> cell tokens 2 = Some Null)
   \<and> (\<exists>tokens w'. cmd_parse demo_world (Lit ''foo -v'' 0) = Ret tokens w'
         \<and> argv_strings (heap w') tokens = Some [''foo'', ''-v'']
         \<and> cell tokens 2 = Some Null)
   \<and> (\<exists>tokens w'. cmd_parse demo_world (Lit [CHR '' '', CHR 0x09] 0) = Ret tokens w'
         \<and> argv_strings (heap w') tokens = Some []
         \<and> cell tokens 0 = Some Null)"
proof -
  have c1: "cstr (heap demo_world) (Ptr 4 0) = Some '' ls -a  ''"
    by (simp add: demo_world_def cstr_def bytes_at_def block_at_def NUL_def)
  have c2: "cstr (heap demo_world) (Lit ''foo -v'' 0) = Some ''foo -v''"
    and c3: "cstr (heap demo_world) (Lit [CHR '' '', CHR 0x09] 0) = Some [CHR '' '', CHR 0x09]"
    by (simp_all add: cstr_Lit NUL_def)
  have r1: "runs '' ls -a  '' = [''ls'', ''-a'']"
    and r2: "runs ''foo -v'' = [''foo'', ''-v'']"
    and r3: "runs [CHR '' '', CHR 0x09] = []"
    by (simp_all add: runs_def is_delim_def delims_def)
  have l1: "length (runs '' ls -a  '') < 2 ^ 30"
    and l2: "length (runs ''foo -v'') < 2 ^ 30"
    and l3: "length (runs [CHR '' '', CHR 0x09]) < 2 ^ 30"
    by (simp_all only: r1 r2 r3) simp_all
  have n1: "length [''ls'', ''-a''] = 2"
    and n2: "length [''foo'', ''-v''] = 2"
    and n3: "length ([] :: string list) = 0"
    by simp_all
  from cmd_parse_tokens [OF c1 l1] obtain t1 w1 where
    "cmd_parse demo_world (Ptr 4 0) = Ret t1 w1"
    "argv_strings (heap w1) t1 = Some (runs '' ls -a  '')"
    "cell t1 (length (runs '' ls -a  '')) = Some Null"
    by blast
  then have "\<exists>tokens w'. cmd_parse demo_world (Ptr 4 0) = Ret tokens w'
         \<and> argv_strings (heap w') tokens = Some [''ls'', ''-a'']
         \<and> cell tokens 2 = Some Null"
    unfolding r1 n1 by blast
  moreover from cmd_parse_tokens [OF c2 l2] obtain t2 w2 where
    "cmd_parse demo_world (Lit ''foo -v'' 0) = Ret t2 w2"
    "argv_strings (heap w2) t2 = Some (runs ''foo -v'')"
    "cell t2 (length (runs ''foo -v'')) = Some Null"
    by blast
  then have "\<exists>tokens w'. cmd_parse demo_world (Lit ''foo -v'' 0) = Ret tokens w'
         \<and> argv_strings (heap w') tokens = Some [''foo'', ''-v'']
         \<and> cell tokens 2 = Some Null"
    unfolding r2 n2 by blast
  moreover from cmd_parse_tokens [OF c3 l3] obtain t3 w3 where
    "cmd_parse demo_world (Lit [CHR '' '', CHR 0x09] 0) = Ret t3 w3"
    "argv_strings (heap w3) t3 = Some (runs [CHR '' '', CHR 0x09])"
    "cell t3 (length (runs [CHR '' '', CHR 0x09])) = Some Null"
    by blast
  then have "\<exists>tokens w'. cmd_parse demo_world (Lit [CHR '' '', CHR 0x09] 0) = Ret tokens w'
         \<and> argv_strings (heap w') tokens = Some []
         \<and> cell tokens 0 = Some Null"
    unfolding r3 n3 by blast
  ultimately show ?thesis using c1 by blast
qed

text \<open>
  Claim C1.  For every input line \<^verbatim>\<open>cmd_parse\<close> is to return the maximal runs of characters
  other than space, tab, carriage return and newline, in order and followed by a null cell.
  The code means to: it doubles the array whenever it is full.  It misses the claim on a line
  of \<open>2 ^ 30\<close> tokens, where \<^verbatim>\<open>bufsize *= 2\<close> leaves the range of \<^verbatim>\<open>int\<close>: the line below is
  a string of \<open>2 ^ 30\<close> tokens, and on it \<^verbatim>\<open>cmd_parse\<close> ends the process with status 1
  instead of returning.
\<close>

theorem cmd_parse_token_limit:
  "cstr [Some (big_line (2 ^ 30) @ [NUL])] (Ptr 0 0) = Some (big_line (2 ^ 30))
   \<and> length (runs (big_line (2 ^ 30))) = 2 ^ 30
   \<and> exit_code (cmd_parse (demo_world\<lparr>heap := [Some (big_line (2 ^ 30) @ [NUL])]\<rparr>) (Ptr 0 0))
       = Some 1"
proof -
  let ?s = "big_line (2 ^ 30)"
  let ?w = "demo_world\<lparr>heap := [Some (?s @ [NUL])]\<rparr>"
  have c: "cstr [Some (?s @ [NUL])] (Ptr 0 0) = Some ?s"
  proof (rule cstr_PtrI [where bs = "?s @ [NUL]" and r = "[]"])
    show "block_at [Some (?s @ [NUL])] 0 = Some (?s @ [NUL])" by (simp add: block_at_def)
    show "drop 0 (?s @ [NUL]) = ?s @ [NUL]" by simp
    show "NUL \<notin> set ?s" by (rule big_line_no_NUL)
  qed
  have l: "length (runs ?s) = 2 ^ 30" by (simp only: big_line_runs length_replicate)
  have c': "cstr (heap ?w) (Ptr 0 0) = Some ?s" using c by simp
  have "\<not> length (runs ?s) < max_tokens" by (simp only: l max_tokens_def)
  with cmd_parse_spec [OF c'] obtain w' where "cmd_parse ?w (Ptr 0 0) = Exit 1 w'"
    by auto
  then have "exit_code (cmd_parse ?w (Ptr 0 0)) = Some 1" by simp
  with c l show ?thesis by blast
qed

text \<open>
  Claim C8.  For every input line, whether \<^verbatim>\<open>cmd_parse\<close> returns or ends the process,
  every block that existed before the call holds the bytes it held, so the string read at
  the caller's pointer is the same; the function writes only to blocks it allocated.
\<close>

theorem cmd_parse_preserves_line:
  assumes "cstr (heap w) line = Some s"
  shows "\<exists>w'. final_world (cmd_parse w line) = Some w'
       \<and> take (length (heap w)) (heap w') = heap w
       \<and> cstr (heap w') line = Some s"
proof -
  from cmd_parse_spec [OF assms] obtain bs' sv where
    r: "cmd_parse w line =
     (if length (runs s) < max_tokens
      then Ret (token_cells (Suc (length (heap w))) (length (runs s))
                  @ Some Null # replicate (capacity (length (runs s)) - Suc (length (runs s))) None)
             (w\<lparr>heap := heap w @ None # token_blocks (runs s), strtok_save := sv\<rparr>)
      else Exit 1
             (w\<lparr>heap := heap w @ Some bs' # token_blocks (take max_tokens (runs s)),
                strtok_save := sv,
                err_out := err_out w @ alloc_error\<rparr>))"
    by blast
  show ?thesis
  proof (cases "length (runs s) < max_tokens")
    case True
    with r cstr_extend [OF assms, of "None # token_blocks (runs s)"] show ?thesis by simp
  next
    case False
    with r cstr_extend [OF assms, of "Some bs' # token_blocks (take max_tokens (runs s))"]
    show ?thesis by simp
  qed
qed

theorem cmd_parse_preserves_line_witness:
  "cstr (heap demo_world) (Ptr 4 0) = Some '' ls -a  ''
   \<and> (\<exists>w'. final_world (cmd_parse demo_world (Ptr 4 0)) = Some w'
         \<and> take 5 (heap w') = heap demo_world
         \<and> cstr (heap w') (Ptr 4 0) = Some '' ls -a  '')"
proof -
  have c: "cstr (heap demo_world) (Ptr 4 0) = Some '' ls -a  ''"
    by (simp add: demo_world_def cstr_def bytes_at_def block_at_def NUL_def)
  have l: "length (heap demo_world) = 5"
    by (simp add: demo_world_def)
  from cmd_parse_preserves_line [OF c] c show ?thesis
    unfolding l by blast
qed

end
